theory Spec2Isabelle
  imports Complex_Main
begin

section \<open>Data model\<close>

text \<open>
  A Pillow image is modelled by its size and by how its pixels were produced:
  a page raster coming from the renderer, a canvas created by \<open>Image.new\<close> together
  with the \<open>paste\<close> calls made on it (in order), or the result of \<open>resize\<close>.
  Python integers are unbounded, hence \<open>int\<close>.
\<close>

type_synonym rgb = "nat \<times> nat \<times> nat"

datatype image =
    Raster (width: int) (height: int) nat
  | Canvas (width: int) (height: int) rgb "(image \<times> int \<times> int) list"
  | Resized (width: int) (height: int) image

text \<open>Exceptions raised by the program, as values.\<close>

datatype py_error =
    ValueError string
  | ZeroDivisionError
  | OverflowError
  | OtherError string

section \<open>Python floats\<close>

text \<open>
  A Python \<open>float\<close> is an IEEE 754 binary64 number. Finite floats are modelled by the
  real numbers they denote, and every operation used here (conversion from \<open>int\<close>,
  \<open>int / int\<close>, \<open>float * float\<close>, \<open>float / float\<close>, \<open>math.sqrt\<close>) returns the
  exact result rounded to the nearest float, ties to the even significand. \<open>ulp_exponent x\<close> is the exponent of the
  unit in the last place at \<open>x\<close>: 52 below the binary exponent of \<open>x\<close>, and never below
  \<open>-1074\<close>, where the subnormal numbers lie.
\<close>

definition round_half_even :: "real \<Rightarrow> int" where
  "round_half_even r =
     (let f = \<lfloor>r\<rfloor>; d = r - of_int f
      in if d < 1 / 2 then f
         else if 1 / 2 < d then f + 1
         else if even f then f else f + 1)"

definition ulp_exponent :: "real \<Rightarrow> int" where
  "ulp_exponent x = max \<lfloor>log 2 \<bar>x\<bar>\<rfloor> (- 1022) - 52"

definition fl :: "real \<Rightarrow> real" where
  "fl x = of_int (round_half_even (x / 2 powi ulp_exponent x)) * 2 powi ulp_exponent x"

text \<open>
  The largest finite float. A result that rounds beyond it overflows: conversion of an
  \<open>int\<close> and true division of two \<open>int\<close>s raise \<open>OverflowError\<close>, a product of
  floats becomes an infinity, which \<open>int()\<close> refuses with \<open>OverflowError\<close>.
  \<open>math.sqrt\<close> converts its argument to a float first and raises \<open>ValueError\<close> on a
  negative one; \<open>math.ceil\<close> is \<open>\<lceil>_\<rceil>\<close> and \<open>int()\<close> truncates towards zero.
\<close>

definition max_double :: real where
  "max_double = (2 ^ 53 - 1) * 2 ^ 971"

datatype py_float = Finite real | PlusInf | MinusInf

definition to_double :: "real \<Rightarrow> py_error + real" where
  "to_double x = (if max_double < \<bar>fl x\<bar> then Inl OverflowError else Inr (fl x))"

definition float_of_int :: "int \<Rightarrow> py_error + real" where
  "float_of_int n = to_double (of_int n)"

definition math_sqrt :: "int \<Rightarrow> py_error + real" where
  "math_sqrt n =
     (case float_of_int n of
        Inl e \<Rightarrow> Inl e
      | Inr x \<Rightarrow> if x < 0 then Inl (ValueError ''math domain error'') else Inr (fl (sqrt x)))"

definition true_div :: "int \<Rightarrow> int \<Rightarrow> py_error + real" where
  "true_div a b = (if b = 0 then Inl ZeroDivisionError else to_double (of_int a / of_int b))"

definition float_mul :: "real \<Rightarrow> real \<Rightarrow> py_float" where
  "float_mul x y =
     (let p = fl (x * y)
      in if max_double < p then PlusInf else if p < - max_double then MinusInf else Finite p)"

fun int_of_float :: "py_float \<Rightarrow> py_error + int" where
  "int_of_float (Finite x) = Inr (if 0 \<le> x then \<lfloor>x\<rfloor> else \<lceil>x\<rceil>)"
| "int_of_float PlusInf = Inl OverflowError"
| "int_of_float MinusInf = Inl OverflowError"

section \<open>Strings\<close>

text \<open>
  Strings are lists of 8-bit characters, read as the code points 0 to 255. \<open>str.strip\<close>
  removes the characters for which \<open>str.isspace\<close> holds, among them the next-line
  control \<open>0x85\<close> and the no-break space \<open>0xA0\<close>. \<open>str.upper\<close> and \<open>str.lower\<close>
  map the letters a to z and the accented letters \<open>0xE0\<close> to \<open>0xFE\<close> (but not the
  division sign \<open>0xF7\<close>); the sharp s \<open>0xDF\<close> becomes \<open>SS\<close>. The micro sign
  \<open>0xB5\<close> and \<open>0xFF\<close>, whose capitals are no 8-bit characters, are left as they
  are: a token that holds one of them is no format name before or after \<open>upper\<close>, and
  only the text of the warning about it differs. \<open>s.split(",")\<close> always returns at
  least one piece.
\<close>

definition is_space :: "char \<Rightarrow> bool" where
  "is_space c = (c \<in> {CHR 0x09, CHR 0x0A, CHR 0x0B, CHR 0x0C, CHR 0x0D,
                       CHR 0x1C, CHR 0x1D, CHR 0x1E, CHR 0x1F, CHR 0x20,
                       CHR 0x85, CHR 0xA0})"

definition strip :: "string \<Rightarrow> string" where
  "strip s = rev (dropWhile is_space (rev (dropWhile is_space s)))"

definition small_letters :: string where
  "small_letters = ''abcdefghijklmnopqrstuvwxyz'' @
     [CHR 0xE0, CHR 0xE1, CHR 0xE2, CHR 0xE3, CHR 0xE4, CHR 0xE5, CHR 0xE6, CHR 0xE7,
      CHR 0xE8, CHR 0xE9, CHR 0xEA, CHR 0xEB, CHR 0xEC, CHR 0xED, CHR 0xEE, CHR 0xEF,
      CHR 0xF0, CHR 0xF1, CHR 0xF2, CHR 0xF3, CHR 0xF4, CHR 0xF5, CHR 0xF6, CHR 0xF8,
      CHR 0xF9, CHR 0xFA, CHR 0xFB, CHR 0xFC, CHR 0xFD, CHR 0xFE]"

definition capital_letters :: string where
  "capital_letters = ''ABCDEFGHIJKLMNOPQRSTUVWXYZ'' @
     [CHR 0xC0, CHR 0xC1, CHR 0xC2, CHR 0xC3, CHR 0xC4, CHR 0xC5, CHR 0xC6, CHR 0xC7,
      CHR 0xC8, CHR 0xC9, CHR 0xCA, CHR 0xCB, CHR 0xCC, CHR 0xCD, CHR 0xCE, CHR 0xCF,
      CHR 0xD0, CHR 0xD1, CHR 0xD2, CHR 0xD3, CHR 0xD4, CHR 0xD5, CHR 0xD6, CHR 0xD8,
      CHR 0xD9, CHR 0xDA, CHR 0xDB, CHR 0xDC, CHR 0xDD, CHR 0xDE]"

definition upper_char :: "char \<Rightarrow> string" where
  "upper_char c =
     (case map_of (zip small_letters capital_letters) c of
        Some u \<Rightarrow> [u]
      | None \<Rightarrow> if c = CHR 0xDF then ''SS'' else [c])"

definition upper :: "string \<Rightarrow> string" where
  "upper s = concat (map upper_char s)"

fun split_on :: "char \<Rightarrow> string \<Rightarrow> string list" where
  "split_on sep [] = [[]]"
| "split_on sep (c # cs) =
     (if c = sep then [] # split_on sep cs
      else (case split_on sep cs of
              w # ws \<Rightarrow> (c # w) # ws
            | [] \<Rightarrow> [[c]]))"

definition lower_char :: "char \<Rightarrow> char" where
  "lower_char c =
     (case map_of (zip capital_letters small_letters) c of
        Some l \<Rightarrow> l
      | None \<Rightarrow> c)"

definition lower :: "string \<Rightarrow> string" where
  "lower s = map lower_char s"

text \<open>
  \<open>int(s)\<close> for a string: white space around the literal is dropped (\<open>int\<close> skips
  what \<open>str.strip\<close> removes, except the separators \<open>0x1C\<close> to \<open>0x1F\<close>), then an
  optional sign and decimal digits follow, where single underscores may separate digits.
  A literal of more than 4300 digits is refused, as CPython does by default. Anything
  else raises \<open>ValueError\<close> too, here \<open>None\<close>.
\<close>

definition digit_val :: "char \<Rightarrow> int option" where
  "digit_val c = map_of (zip ''0123456789'' [0, 1, 2, 3, 4, 5, 6, 7, 8, 9]) c"

fun parse_digits :: "string \<Rightarrow> int \<Rightarrow> int option" where
  "parse_digits [] acc = Some acc"
| "parse_digits (c # cs) acc =
     (if c = CHR ''_'' then
        (case cs of
           [] \<Rightarrow> None
         | c' # cs' \<Rightarrow>
             (case digit_val c' of
                None \<Rightarrow> None
              | Some d \<Rightarrow> parse_digits cs' (10 * acc + d)))
      else
        (case digit_val c of
           None \<Rightarrow> None
         | Some d \<Rightarrow> parse_digits cs (10 * acc + d)))"

definition parse_unsigned :: "string \<Rightarrow> int option" where
  "parse_unsigned s =
     (case s of
        [] \<Rightarrow> None
      | c # cs \<Rightarrow> (case digit_val c of None \<Rightarrow> None | Some d \<Rightarrow> parse_digits cs d))"

definition is_int_space :: "char \<Rightarrow> bool" where
  "is_int_space c = (c \<in> {CHR 0x09, CHR 0x0A, CHR 0x0B, CHR 0x0C, CHR 0x0D, CHR 0x20,
                           CHR 0x85, CHR 0xA0})"

definition py_int :: "string \<Rightarrow> int option" where
  "py_int s =
     (case rev (dropWhile is_int_space (rev (dropWhile is_int_space s))) of
        [] \<Rightarrow> None
      | c # cs \<Rightarrow>
          if 4300 < length (filter (\<lambda>d. digit_val d \<noteq> None) (c # cs)) then None
          else if c = CHR ''-'' then map_option uminus (parse_unsigned cs)
          else if c = CHR ''+'' then parse_unsigned cs
          else parse_unsigned (c # cs))"

section \<open>Command line and resolve_formats\<close>

text \<open>The namespace returned by \<open>parse_args\<close>. \<open>argparse\<close> has already converted
  the integer options and checked \<open>--format\<close> against its choices.\<close>

record args =
  arg_input :: string
  arg_output :: string
  arg_dpi :: int
  arg_cols :: string
  arg_margin :: int
  arg_spacing :: int
  arg_bg :: string
  arg_format :: string
  arg_both :: bool
  arg_formats :: string
  arg_suffix :: string
  arg_max_width :: int
  arg_quality :: int
  arg_verbose :: bool

text \<open>One round of the loop that drops unsupported formats and duplicates; the state
  is \<open>seen\<close>, \<open>out\<close> and the tokens warned about.\<close>

definition format_step :: "string \<Rightarrow> string set \<times> string list \<times> string list \<Rightarrow> string set \<times> string list \<times> string list" where
  "format_step f st =
     (case st of (seen, out, warned) \<Rightarrow>
        if f \<notin> {''PNG'', ''JPEG''} then (seen, out, warned @ [f])
        else if f \<notin> seen then (insert f seen, out @ [f], warned)
        else (seen, out, warned))"

text \<open>The list \<open>fmts\<close> before the alias is normalised: the tokens of \<open>--formats\<close>
  when it is not empty, else both formats under \<open>--both\<close>, else the legacy
  \<open>--format\<close>.\<close>

definition format_tokens :: "args \<Rightarrow> string list" where
  "format_tokens a =
     (if arg_formats a \<noteq> [] then
        [upper (strip f). f \<leftarrow> split_on CHR '','' (arg_formats a), strip f \<noteq> []]
      else if arg_both a then [''PNG'', ''JPEG'']
      else [upper (arg_format a)])"

text \<open>\<open>resolve_formats\<close> returns the formats; the second component lists the tokens
  for which the warning about an unsupported format was printed to standard error.\<close>

definition resolve_formats :: "args \<Rightarrow> string list \<times> string list" where
  "resolve_formats a =
     (let fmts = format_tokens a;
          fmts = [if f = ''JPG'' then ''JPEG'' else f. f \<leftarrow> fmts]
      in case fold format_step fmts ({}, [], []) of
           (seen, out, warned) \<Rightarrow> (if out = [] then [''PNG''] else out, warned))"

section \<open>compute_grid\<close>

text \<open>\<open>compute_grid\<close> returns \<open>(columns, rows)\<close>. The square root and both divisions
  are computed on floats; \<open>n_pages / c\<close> raises \<open>ZeroDivisionError\<close> when \<open>c\<close> is
  zero, which happens for no pages under \<open>auto\<close>.\<close>

definition compute_grid :: "int \<Rightarrow> string \<Rightarrow> py_error + int \<times> int" where
  "compute_grid n_pages cols =
     (if cols = ''1'' then Inr (1, n_pages)
      else if lower cols = ''auto'' then
        (case math_sqrt n_pages of
           Inl e \<Rightarrow> Inl e
         | Inr s \<Rightarrow>
             let c = \<lceil>s\<rceil> in
             (case true_div n_pages c of
                Inl e \<Rightarrow> Inl e
              | Inr q \<Rightarrow> Inr (c, \<lceil>q\<rceil>)))
      else
        (case py_int cols of
           None \<Rightarrow> Inl (ValueError ''invalid literal for int() with base 10'')
         | Some k \<Rightarrow>
             let c = max 1 k in
             (case true_div n_pages c of
                Inl e \<Rightarrow> Inl e
              | Inr q \<Rightarrow> Inr (c, \<lceil>q\<rceil>))))"

section \<open>make_poster\<close>

text \<open>\<open>Image.new\<close> refuses a negative width or height with a \<open>ValueError\<close>, and a
  side that does not fit a C \<open>int\<close> with an \<open>OverflowError\<close>. Whether the memory for
  a canvas within these limits can be had is not decided here: what is proved below about
  a poster is proved of a poster that was returned.\<close>

definition image_new :: "int \<Rightarrow> int \<Rightarrow> rgb \<Rightarrow> py_error + image" where
  "image_new w h c =
     (if w < 0 \<or> h < 0 then Inl (ValueError ''Width and height must be >= 0'')
      else if 2 ^ 31 - 1 < w \<or> 2 ^ 31 - 1 < h then Inl OverflowError
      else Inr (Canvas w h c []))"

text \<open>\<open>poster.paste(im, (x, y))\<close>: the canvas records the paste; other images are
  never pasted on by the program and are left as they are.\<close>

fun paste :: "image \<Rightarrow> image \<Rightarrow> int \<times> int \<Rightarrow> image" where
  "paste (Canvas w h c ps) im (x, y) = Canvas w h c (ps @ [(im, x, y)])"
| "paste p im (x, y) = p"

text \<open>The body of the paste loop for one \<open>(idx, im)\<close> of \<open>enumerate(images)\<close>.
  \<open>idx // cols\<close> raises when \<open>cols\<close> is zero; \<open>div\<close> and \<open>mod\<close> on \<open>int\<close>
  floor as Python's \<open>//\<close> and \<open>%\<close> do.\<close>

definition paste_offset :: "int \<Rightarrow> int \<Rightarrow> int \<Rightarrow> int \<Rightarrow> int \<Rightarrow> int \<Rightarrow> image \<Rightarrow> int \<times> int" where
  "paste_offset cols margin spacing cell_w cell_h idx im =
     (let r = idx div cols;
          c = idx mod cols;
          x0 = margin + c * (cell_w + spacing);
          y0 = margin + r * (cell_h + spacing);
          off_x = x0 + (cell_w - width im) div 2;
          off_y = y0 + (cell_h - height im) div 2
      in (off_x, off_y))"

fun paste_all :: "int \<Rightarrow> int \<Rightarrow> int \<Rightarrow> int \<Rightarrow> int \<Rightarrow> (nat \<times> image) list \<Rightarrow> image \<Rightarrow> py_error + image" where
  "paste_all cols margin spacing cell_w cell_h [] poster = Inr poster"
| "paste_all cols margin spacing cell_w cell_h ((idx, im) # rest) poster =
     (if cols = 0 then Inl ZeroDivisionError
      else paste_all cols margin spacing cell_w cell_h rest
             (paste poster im (paste_offset cols margin spacing cell_w cell_h (int idx) im)))"

text \<open>\<open>max(im.width for im in images)\<close> on a non-empty sequence.\<close>

definition max_of :: "int \<Rightarrow> int list \<Rightarrow> int" where
  "max_of x xs = foldl max x xs"

text \<open>\<open>make_poster\<close>. The colour parser \<open>ImageColor.getrgb\<close> belongs to Pillow and is a
  parameter; it raises \<open>ValueError\<close> on a string it does not know. The diagnostic
  print under \<open>verbose\<close> is left out.\<close>

fun make_poster ::
  "(string \<Rightarrow> rgb option) \<Rightarrow> image list \<Rightarrow> int \<Rightarrow> int \<Rightarrow> int \<Rightarrow> int \<Rightarrow> string \<Rightarrow> py_error + image" where
  "make_poster getrgb [] cols rows margin spacing bg = Inl (ValueError ''No images to compose.'')"
| "make_poster getrgb (im # ims) cols rows margin spacing bg =
     (case getrgb bg of
        None \<Rightarrow> Inl (ValueError ''unknown color specifier'')
      | Some bg_rgb \<Rightarrow>
          let cell_w = max_of (width im) (map width ims);
              cell_h = max_of (height im) (map height ims);
              grid_w = cols * cell_w + (cols - 1) * spacing;
              grid_h = rows * cell_h + (rows - 1) * spacing;
              total_w = grid_w + 2 * margin;
              total_h = grid_h + 2 * margin
          in (case image_new total_w total_h bg_rgb of
                Inl e \<Rightarrow> Inl e
              | Inr poster \<Rightarrow>
                  paste_all cols margin spacing cell_w cell_h
                    (List.enumerate 0 (im # ims)) poster))"

text \<open>The paste calls recorded on a canvas, in the order they were made.\<close>

fun pastes :: "image \<Rightarrow> (image \<times> int \<times> int) list" where
  "pastes (Canvas w h c ps) = ps"
| "pastes _ = []"

section \<open>downscale_if_needed\<close>

text \<open>\<open>img.resize\<close> returns a new image of the requested size, resampled from
  \<open>img\<close>. The diagnostic print under \<open>verbose\<close> is left out.\<close>

definition downscale_if_needed :: "image \<Rightarrow> int \<Rightarrow> py_error + image" where
  "downscale_if_needed img max_width =
     (if max_width \<le> 0 \<or> width img \<le> max_width then Inr img
      else
        (case true_div max_width (width img) of
           Inl e \<Rightarrow> Inl e
         | Inr ratio \<Rightarrow>
             (case float_of_int (height img) of
                Inl e \<Rightarrow> Inl e
              | Inr h \<Rightarrow>
                  (case int_of_float (float_mul h ratio) of
                     Inl e \<Rightarrow> Inl e
                   | Inr new_h \<Rightarrow> Inr (Resized max_width (max 1 new_h) img)))))"

section \<open>Processing documents\<close>

text \<open>
  Paths are strings with \<open>/\<close> between components. \<open>name\<close>, \<open>stem\<close> and \<open>suffix\<close>
  follow \<open>pathlib\<close>: the suffix starts at the last dot of the name, unless that dot is
  the first or the last character of the name.
\<close>

definition path_name :: "string \<Rightarrow> string" where
  "path_name p = rev (takeWhile (\<lambda>c. c \<noteq> CHR ''/'') (rev p))"

definition path_stem :: "string \<Rightarrow> string" where
  "path_stem p =
     (let name = path_name p;
          ext = rev (takeWhile (\<lambda>c. c \<noteq> CHR ''.'') (rev name));
          i = int (length name) - int (length ext) - 1
      in if CHR ''.'' \<in> set name \<and> 0 < i \<and> ext \<noteq> [] then take (nat i) name else name)"

definition path_suffix :: "string \<Rightarrow> string" where
  "path_suffix p =
     (let name = path_name p;
          ext = rev (takeWhile (\<lambda>c. c \<noteq> CHR ''.'') (rev name));
          i = int (length name) - int (length ext) - 1
      in if CHR ''.'' \<in> set name \<and> 0 < i \<and> ext \<noteq> [] then drop (nat i) name else [])"

definition path_join :: "string \<Rightarrow> string \<Rightarrow> string" where
  "path_join d n = d @ ''/'' @ n"

text \<open>
  What the program reads from and does to its surroundings is a parameter: the file
  system (\<open>expanduser\<close>, \<open>mkdir\<close> with the exception it raises, if any, \<open>is_file\<close>,
  \<open>is_dir\<close>, and \<open>sorted(path.rglob("*.pdf"))\<close>), the PyMuPDF renderer applied to a
  document at a zoom, Pillow's colour parser, and writing an image to a path in a format
  at a quality (creating the parent directory first), again with the exception raised.
\<close>

record env =
  env_expanduser :: "string \<Rightarrow> string"
  env_mkdir :: "string \<Rightarrow> py_error option"
  env_is_file :: "string \<Rightarrow> bool"
  env_is_dir :: "string \<Rightarrow> bool"
  env_rglob :: "string \<Rightarrow> string list"
  env_render :: "string \<Rightarrow> real \<Rightarrow> py_error + image list"
  env_getrgb :: "string \<Rightarrow> rgb option"
  env_save :: "image \<Rightarrow> string \<Rightarrow> string \<Rightarrow> int \<Rightarrow> py_error option"

text \<open>
  The effects of a run, in order: a document handed to the renderer, a file written,
  and the lines printed. \<open>PrintWarning\<close> (an unsupported format), \<open>PrintNoPdfs\<close> and
  \<open>PrintError\<close> go to standard error, \<open>PrintFound\<close> and \<open>PrintOK\<close> to standard
  output. Diagnostic prints under \<open>verbose\<close> are left out.
\<close>

datatype event =
    Render string
  | Save string string
  | PrintWarning string
  | PrintNoPdfs
  | PrintFound nat string "string list"
  | PrintOK string "string list"
  | PrintError string py_error

text \<open>How \<open>main\<close> ends: it returns, it calls \<open>sys.exit\<close>, or an exception escapes;
  \<open>exit_code\<close> is the exit status of the process in each case.\<close>

datatype status = Returned | SysExit int | Uncaught py_error

fun exit_code :: "status \<Rightarrow> int" where
  "exit_code Returned = 0"
| "exit_code (SysExit n) = n"
| "exit_code (Uncaught e) = 1"

definition find_pdfs :: "env \<Rightarrow> string \<Rightarrow> string list" where
  "find_pdfs w path =
     (if env_is_file w path \<and> lower (path_suffix path) = ''.pdf'' then [path]
      else if env_is_dir w path then env_rglob w path
      else [])"

text \<open>\<open>dpi / 72.0\<close>: the integer is converted to a float, the quotient is rounded;
  it cannot overflow.\<close>

definition dpi_to_zoom :: "int \<Rightarrow> py_error + real" where
  "dpi_to_zoom dpi =
     (case float_of_int dpi of Inl e \<Rightarrow> Inl e | Inr d \<Rightarrow> Inr (fl (d / 72)))"

definition render_pdf_pages :: "env \<Rightarrow> string \<Rightarrow> int \<Rightarrow> py_error + image list" where
  "render_pdf_pages w pdf_path dpi =
     (case dpi_to_zoom dpi of Inl e \<Rightarrow> Inl e | Inr zoom \<Rightarrow> env_render w pdf_path zoom)"

definition save_image :: "env \<Rightarrow> image \<Rightarrow> string \<Rightarrow> string \<Rightarrow> int \<Rightarrow> py_error option" where
  "save_image w img out_path fmt quality =
     env_save w img out_path (if upper fmt = ''JPEG'' then ''JPEG'' else ''PNG'') quality"

text \<open>The output path of a document for one format, as the loop of \<open>process_pdf\<close>
  computes it.\<close>

definition out_path_of :: "string \<Rightarrow> string \<Rightarrow> string \<Rightarrow> string \<Rightarrow> string" where
  "out_path_of out_dir pdf_path suffix fmt =
     (let ext = (if upper fmt = ''JPEG'' then ''.jpg'' else ''.png'');
          stem = path_stem pdf_path @ suffix
      in path_join out_dir (stem @ ext))"

text \<open>The loop over the formats in \<open>process_pdf\<close>; an exception of \<open>save_image\<close>
  ends it, and the files written before stay written.\<close>

fun save_formats ::
  "env \<Rightarrow> image \<Rightarrow> string \<Rightarrow> string \<Rightarrow> string \<Rightarrow> int \<Rightarrow> string list \<Rightarrow> string list
     \<Rightarrow> event list \<times> (py_error + string list)" where
  "save_formats w poster pdf_path out_dir suffix quality [] out_paths = ([], Inr out_paths)"
| "save_formats w poster pdf_path out_dir suffix quality (fmt # fmts) out_paths =
     (let out_path = out_path_of out_dir pdf_path suffix fmt
      in case save_image w poster out_path (upper fmt) quality of
           Some e \<Rightarrow> ([], Inl e)
         | None \<Rightarrow>
             (case save_formats w poster pdf_path out_dir suffix quality fmts (out_paths @ [out_path]) of
                (evs, res) \<Rightarrow> (Save out_path (upper fmt) # evs, res)))"

definition process_pdf ::
  "env \<Rightarrow> string \<Rightarrow> string \<Rightarrow> int \<Rightarrow> string \<Rightarrow> int \<Rightarrow> int \<Rightarrow> string \<Rightarrow> string list \<Rightarrow> string
     \<Rightarrow> int \<Rightarrow> int \<Rightarrow> event list \<times> (py_error + string list)" where
  "process_pdf w pdf_path out_dir dpi cols_spec margin spacing bg fmts suffix max_width quality =
     (case
        (case render_pdf_pages w pdf_path dpi of
           Inl e \<Rightarrow> ([], Inl e)
         | Inr pages \<Rightarrow>
             (case compute_grid (int (length pages)) cols_spec of
                Inl e \<Rightarrow> ([], Inl e)
              | Inr (cols, rows) \<Rightarrow>
                  (case make_poster (env_getrgb w) pages cols rows margin spacing bg of
                     Inl e \<Rightarrow> ([], Inl e)
                   | Inr poster \<Rightarrow>
                       (case downscale_if_needed poster max_width of
                          Inl e \<Rightarrow> ([], Inl e)
                        | Inr poster \<Rightarrow>
                            save_formats w poster pdf_path out_dir suffix quality fmts []))))
      of (evs, res) \<Rightarrow> (Render pdf_path # evs, res))"

text \<open>The body of the loop of \<open>main\<close>: the call of \<open>process_pdf\<close> with the
  arguments of the run, and the line printed after it, \<open>OK\<close> or, for any exception,
  \<open>ERROR processing\<close> with the path of the document.\<close>

definition call_process_pdf ::
  "env \<Rightarrow> args \<Rightarrow> string list \<Rightarrow> string \<Rightarrow> string \<Rightarrow> event list \<times> (py_error + string list)" where
  "call_process_pdf w a fmts out_dir pdf =
     process_pdf w pdf out_dir (arg_dpi a) (arg_cols a) (arg_margin a) (arg_spacing a)
       (arg_bg a) fmts (arg_suffix a) (arg_max_width a) (arg_quality a)"

definition process_one :: "env \<Rightarrow> args \<Rightarrow> string list \<Rightarrow> string \<Rightarrow> string \<Rightarrow> event list" where
  "process_one w a fmts out_dir pdf =
     (case call_process_pdf w a fmts out_dir pdf of
        (evs, Inr outs) \<Rightarrow> evs @ [PrintOK (path_name pdf) (map path_name outs)]
      | (evs, Inl e) \<Rightarrow> evs @ [PrintError pdf e])"

fun process_all :: "env \<Rightarrow> args \<Rightarrow> string list \<Rightarrow> string \<Rightarrow> string list \<Rightarrow> event list" where
  "process_all w a fmts out_dir [] = []"
| "process_all w a fmts out_dir (pdf # pdfs) =
     process_one w a fmts out_dir pdf @ process_all w a fmts out_dir pdfs"

text \<open>\<open>main\<close>, given the parsed arguments.\<close>

definition main :: "env \<Rightarrow> args \<Rightarrow> event list \<times> status" where
  "main w a =
     (case resolve_formats a of
        (fmts, warned) \<Rightarrow>
          let warnings = map PrintWarning warned;
              in_path = env_expanduser w (arg_input a);
              out_dir = env_expanduser w (arg_output a)
          in case env_mkdir w out_dir of
               Some e \<Rightarrow> (warnings, Uncaught e)
             | None \<Rightarrow>
                 let pdfs = find_pdfs w in_path
                 in if pdfs = [] then (warnings @ [PrintNoPdfs], SysExit 1)
                    else (warnings @ [PrintFound (length pdfs) out_dir fmts]
                            @ process_all w a fmts out_dir pdfs, Returned))"

section \<open>Concrete inputs\<close>

text \<open>A colour parser and three pages of differing sizes, for concrete runs.\<close>

definition white :: "string \<Rightarrow> rgb option" where
  "white s = (if s = ''#FFFFFF'' then Some (255, 255, 255) else None)"

definition three_pages :: "image list" where
  "three_pages = [Raster 100 200 0, Raster 150 150 1, Raster 100 180 2]"

text \<open>The defaults of \<open>parse_args\<close>, for concrete runs.\<close>

definition example_args :: args where
  "example_args = \<lparr> arg_input = ''in'', arg_output = ''out'', arg_dpi = 300, arg_cols = ''auto'',
     arg_margin = 16, arg_spacing = 8, arg_bg = ''#FFFFFF'', arg_format = ''PNG'', arg_both = False,
     arg_formats = '''', arg_suffix = ''_poster'', arg_max_width = 0, arg_quality = 95,
     arg_verbose = False \<rparr>"

text \<open>A directory \<open>in\<close> with two documents: \<open>a.pdf\<close> has one page of 100x200
  pixels, \<open>b.pdf\<close> cannot be opened.\<close>

definition example_env :: env where
  "example_env = \<lparr>
     env_expanduser = (\<lambda>p. p),
     env_mkdir = (\<lambda>p. None),
     env_is_file = (\<lambda>p. False),
     env_is_dir = (\<lambda>p. p = ''in''),
     env_rglob = (\<lambda>p. if p = ''in'' then [''in/a.pdf'', ''in/b.pdf''] else []),
     env_render = (\<lambda>p zoom. if p = ''in/a.pdf'' then Inr [Raster 100 200 0]
                              else Inl (OtherError ''cannot open broken document'')),
     env_getrgb = white,
     env_save = (\<lambda>img p fmt q. None) \<rparr>"

section \<open>Rounding to the nearest float\<close>

lemma round_half_even_of_int: "round_half_even (of_int k) = k"
  by (simp add: round_half_even_def)

lemma round_half_even_ge:
  assumes "of_int k \<le> r" shows "k \<le> round_half_even r"
proof -
  have "k \<le> \<lfloor>r\<rfloor>" using assms by (simp add: le_floor_iff)
  moreover have "\<lfloor>r\<rfloor> \<le> round_half_even r"
    unfolding round_half_even_def Let_def by auto
  ultimately show ?thesis by linarith
qed

lemma round_half_even_le:
  assumes "r \<le> of_int k" shows "round_half_even r \<le> k"
proof (cases "r = of_int k")
  case True
  then show ?thesis by (simp add: round_half_even_of_int)
next
  case False
  then have "r < of_int k" using assms by simp
  then have "\<lfloor>r\<rfloor> < k" by (simp add: floor_less_iff)
  then have "\<lfloor>r\<rfloor> + 1 \<le> k" by simp
  moreover have "round_half_even r \<le> \<lfloor>r\<rfloor> + 1"
    unfolding round_half_even_def Let_def by auto
  ultimately show ?thesis by linarith
qed

lemma round_half_even_down:
  assumes "of_int k \<le> r" "r < of_int k + 1 / 2"
  shows "round_half_even r = k"
proof -
  have "\<lfloor>r\<rfloor> = k" using assms by (intro floor_unique) linarith+
  then show ?thesis using assms(2) by (simp add: round_half_even_def)
qed

lemma round_half_even_error: "\<bar>of_int (round_half_even r) - r\<bar> \<le> 1 / 2"
proof -
  have "of_int \<lfloor>r\<rfloor> \<le> r" "r < of_int \<lfloor>r\<rfloor> + 1" by linarith+
  then show ?thesis
    unfolding round_half_even_def Let_def by (auto simp: abs_le_iff)
qed

lemma floor_log2_le:
  assumes "0 < x" "x < 2 powi (k + 1)"
  shows "\<lfloor>log 2 x\<rfloor> \<le> k"
proof -
  have "log 2 x < log 2 (2 powi (k + 1))" using assms by simp
  also have "\<dots> = of_int (k + 1)"
    by (simp add: powr_real_of_int' [symmetric] del: of_int_add)
  finally have "\<lfloor>log 2 x\<rfloor> < k + 1" by (simp only: floor_less_iff)
  then show ?thesis by simp
qed

lemma floor_log2_ge:
  assumes "2 powi k \<le> x"
  shows "k \<le> \<lfloor>log 2 x\<rfloor>"
proof -
  have pos: "(0::real) < 2 powi k" by simp
  then have x: "0 < x" using assms by linarith
  have "of_int k = log 2 (2 powi k)"
    by (simp add: powr_real_of_int' [symmetric])
  also have "\<dots> \<le> log 2 x" using assms pos x by simp
  finally show ?thesis by (simp add: le_floor_iff)
qed

lemma powi_floor_log2_le:
  assumes "0 < x" shows "2 powi \<lfloor>log 2 x\<rfloor> \<le> x"
proof -
  have "(2::real) powi \<lfloor>log 2 x\<rfloor> = 2 powr (of_int \<lfloor>log 2 x\<rfloor>)"
    by (simp add: powr_real_of_int')
  also have "\<dots> \<le> 2 powr (log 2 x)" by (intro powr_mono) auto
  also have "\<dots> = x" using assms by simp
  finally show ?thesis .
qed

lemma ulp_exponent_ge: "- 1074 \<le> ulp_exponent x"
  by (simp add: ulp_exponent_def)

lemma ulp_exponent_le:
  assumes "x \<noteq> 0" "\<bar>x\<bar> < 2 powi (k + 1)" "- 1022 \<le> k"
  shows "ulp_exponent x \<le> k - 52"
proof -
  have "\<lfloor>log 2 \<bar>x\<bar>\<rfloor> \<le> k" using assms(1,2) by (intro floor_log2_le) auto
  then show ?thesis using assms(3) by (simp add: ulp_exponent_def)
qed

lemma ulp_exponent_eq:
  assumes "2 powi k \<le> \<bar>x\<bar>" "\<bar>x\<bar> < 2 powi (k + 1)" "- 1022 \<le> k"
  shows "ulp_exponent x = k - 52"
proof -
  have "(0::real) < 2 powi k" by simp
  then have "0 < \<bar>x\<bar>" using assms(1) by linarith
  then have "\<lfloor>log 2 \<bar>x\<bar>\<rfloor> \<le> k" using assms(2) by (intro floor_log2_le) auto
  moreover have "k \<le> \<lfloor>log 2 \<bar>x\<bar>\<rfloor>" using assms(1) by (rule floor_log2_ge)
  ultimately show ?thesis using assms(3) by (simp add: ulp_exponent_def)
qed

lemma grid_point:
  assumes "u \<le> e"
  shows "real_of_int (m * 2 ^ nat (e - u)) * 2 powi u = of_int m * 2 powi e"
proof -
  have "(2::real) ^ nat (e - u) = 2 powi (e - u)"
    using assms by (simp add: power_int_def)
  then have "(2::real) ^ nat (e - u) * 2 powi u = 2 powi e"
    by (simp add: power_int_add [symmetric])
  then show ?thesis by (simp add: mult.assoc)
qed

lemma fl_grid_ge:
  assumes "ulp_exponent x \<le> e" "of_int m * 2 powi e \<le> x"
  shows "of_int m * 2 powi e \<le> fl x"
proof -
  let ?u = "ulp_exponent x"
  let ?M = "m * 2 ^ nat (e - ?u)"
  have pos: "(0::real) < 2 powi ?u" by simp
  have g: "real_of_int ?M * 2 powi ?u = of_int m * 2 powi e"
    using assms(1) by (rule grid_point)
  have "real_of_int ?M \<le> x / 2 powi ?u"
    using assms(2) pos unfolding g [symmetric] by (simp only: pos_le_divide_eq)
  then have "?M \<le> round_half_even (x / 2 powi ?u)"
    by (rule round_half_even_ge)
  then have "real_of_int ?M \<le> of_int (round_half_even (x / 2 powi ?u))"
    by (simp only: of_int_le_iff)
  then have "real_of_int ?M * 2 powi ?u \<le> fl x"
    unfolding fl_def using pos by (simp only: mult_le_cancel_right_pos)
  then show ?thesis unfolding g .
qed

lemma fl_grid_le:
  assumes "ulp_exponent x \<le> e" "x \<le> of_int m * 2 powi e"
  shows "fl x \<le> of_int m * 2 powi e"
proof -
  let ?u = "ulp_exponent x"
  let ?M = "m * 2 ^ nat (e - ?u)"
  have pos: "(0::real) < 2 powi ?u" by simp
  have g: "real_of_int ?M * 2 powi ?u = of_int m * 2 powi e"
    using assms(1) by (rule grid_point)
  have "x / 2 powi ?u \<le> real_of_int ?M"
    using assms(2) pos unfolding g [symmetric] by (simp only: pos_divide_le_eq)
  then have "round_half_even (x / 2 powi ?u) \<le> ?M"
    by (rule round_half_even_le)
  then have "real_of_int (round_half_even (x / 2 powi ?u)) \<le> of_int ?M"
    by (simp only: of_int_le_iff)
  then have "fl x \<le> real_of_int ?M * 2 powi ?u"
    unfolding fl_def using pos by (simp only: mult_le_cancel_right_pos)
  then show ?thesis unfolding g .
qed

lemma fl_zero: "fl 0 = 0"
  by (simp add: fl_def round_half_even_def)

lemma fl_exact:
  assumes "\<bar>m\<bar> < 2 ^ 53" "- 1074 \<le> e"
  shows "fl (of_int m * 2 powi e) = of_int m * 2 powi e"
proof (cases "m = 0")
  case True
  then show ?thesis by (simp add: fl_zero)
next
  case False
  let ?x = "of_int m * 2 powi e :: real"
  have x0: "?x \<noteq> 0" using False by simp
  have m: "real_of_int \<bar>m\<bar> < 2 powi 53"
    using assms(1) by (simp flip: of_int_less_iff)
  have "\<bar>?x\<bar> = of_int \<bar>m\<bar> * 2 powi e" by (simp add: abs_mult)
  also have "\<dots> < 2 powi 53 * 2 powi e"
    using m by (intro mult_strict_right_mono) simp_all
  also have "\<dots> = 2 powi ((e + 52) + 1)"
    by (simp add: power_int_add)
  finally have "ulp_exponent ?x \<le> (e + 52) - 52"
    using x0 assms(2) by (intro ulp_exponent_le) auto
  then have u: "ulp_exponent ?x \<le> e" by simp
  show ?thesis
    using fl_grid_ge [OF u order_refl] fl_grid_le [OF u order_refl] by simp
qed

lemma fl_of_int: "\<bar>n\<bar> < 2 ^ 53 \<Longrightarrow> fl (of_int n) = of_int n"
  using fl_exact [of n 0] by simp

lemma fl_down:
  assumes "2 powi e \<le> \<bar>x\<bar>" "\<bar>x\<bar> < 2 powi (e + 1)" "- 1022 \<le> e"
    and "of_int k \<le> x / 2 powi (e - 52)" "x / 2 powi (e - 52) < of_int k + 1 / 2"
  shows "fl x = of_int k * 2 powi (e - 52)"
proof -
  have "ulp_exponent x = e - 52" using assms(1-3) by (rule ulp_exponent_eq)
  moreover have "round_half_even (x / 2 powi (e - 52)) = k"
    using assms(4,5) by (rule round_half_even_down)
  ultimately show ?thesis by (simp add: fl_def)
qed


section \<open>Properties of make_poster\<close>

text \<open>
  Claim C6: on the empty page sequence \<open>make_poster\<close> fails with the error for empty
  input (\<open>ValueError("No images to compose.")\<close>), whatever the grid shape, the layout
  parameters and the colour are; no poster is returned.
\<close>

theorem make_poster_empty:
  "make_poster getrgb [] cols rows margin spacing bg = Inl (ValueError ''No images to compose.'')"
  by simp

lemma max_of_Max: "max_of x xs = Max (set (x # xs))"
  unfolding max_of_def
proof (induction xs arbitrary: x)
  case Nil
  show ?case by simp
next
  case (Cons y ys)
  have "foldl max x (y # ys) = foldl max (max x y) ys" by simp
  also have "\<dots> = Max (set (max x y # ys))" by (rule Cons.IH)
  also have "\<dots> = Max (set (x # y # ys))"
    by (cases "ys = []") (simp_all add: max.assoc)
  finally show ?case .
qed

lemma max_of_map: "max_of (f im) (map f ims) = Max (f ` set (im # ims))"
  by (simp add: max_of_Max)

lemma paste_all_Canvas:
  "cols \<noteq> 0 \<Longrightarrow>
   paste_all cols margin spacing cw ch xs (Canvas w h c ps) =
     Inr (Canvas w h c (ps @ map (\<lambda>(idx, im). (im, paste_offset cols margin spacing cw ch (int idx) im)) xs))"
proof (induction xs arbitrary: ps)
  case Nil
  show ?case by simp
next
  case (Cons a xs)
  obtain idx im where a: "a = (idx, im)" by (cases a)
  obtain x y where xy: "paste_offset cols margin spacing cw ch (int idx) im = (x, y)"
    by (cases "paste_offset cols margin spacing cw ch (int idx) im")
  show ?case using Cons.prems Cons.IH [OF Cons.prems] by (simp add: a xy)
qed

lemma make_poster_InrD:
  assumes "make_poster getrgb images cols rows margin spacing bg = Inr p"
  shows "images \<noteq> []" and "cols \<noteq> 0"
    and "\<exists>c. getrgb bg = Some c \<and>
           p = Canvas (cols * Max (width ` set images) + (cols - 1) * spacing + 2 * margin)
                 (rows * Max (height ` set images) + (rows - 1) * spacing + 2 * margin) c
                 (map (\<lambda>(idx, im). (im, paste_offset cols margin spacing
                           (Max (width ` set images)) (Max (height ` set images)) (int idx) im))
                    (List.enumerate 0 images))"
proof -
  let ?cw = "Max (width ` set images)" and ?ch = "Max (height ` set images)"
  let ?tw = "cols * ?cw + (cols - 1) * spacing + 2 * margin"
  let ?th = "rows * ?ch + (rows - 1) * spacing + 2 * margin"
  obtain im ims where im: "images = im # ims" using assms by (cases images) auto
  show "images \<noteq> []" by (simp add: im)
  have mp: "make_poster getrgb (im # ims) cols rows margin spacing bg = Inr p"
    using assms by (simp only: im)
  obtain c where c: "getrgb bg = Some c"
    using mp by (cases "getrgb bg") auto
  have cw: "max_of (width im) (map width ims) = ?cw"
    and ch: "max_of (height im) (map height ims) = ?ch"
    by (simp_all add: im max_of_map)
  have new: "(case image_new ?tw ?th c of
                 Inl e \<Rightarrow> Inl e
               | Inr poster \<Rightarrow>
                   paste_all cols margin spacing ?cw ?ch (List.enumerate 0 images) poster)
              = Inr p"
    using mp [unfolded make_poster.simps c option.case Let_def cw ch]
    by (simp only: im [symmetric])
  then obtain poster where poster: "image_new ?tw ?th c = Inr poster"
    and loop: "paste_all cols margin spacing ?cw ?ch (List.enumerate 0 images) poster = Inr p"
    by (cases "image_new ?tw ?th c") auto
  have canvas: "poster = Canvas ?tw ?th c []"
    using poster by (auto simp: image_new_def split: if_splits)
  show c0: "cols \<noteq> 0"
    using loop by (auto simp: im split: if_splits)
  have "p = Canvas ?tw ?th c
          (map (\<lambda>(idx, im). (im, paste_offset cols margin spacing ?cw ?ch (int idx) im))
             (List.enumerate 0 images))"
    using loop unfolding canvas by (simp add: paste_all_Canvas [OF c0])
  then show "\<exists>c. getrgb bg = Some c \<and>
           p = Canvas ?tw ?th c
                 (map (\<lambda>(idx, im). (im, paste_offset cols margin spacing ?cw ?ch (int idx) im))
                    (List.enumerate 0 images))"
    using c by blast
qed

lemma make_poster_pastes:
  assumes "make_poster getrgb images cols rows margin spacing bg = Inr p"
  shows "pastes p = map (\<lambda>(idx, im). (im, paste_offset cols margin spacing
                      (Max (width ` set images)) (Max (height ` set images)) (int idx) im))
               (List.enumerate 0 images)"
    and "width p = cols * Max (width ` set images) + (cols - 1) * spacing + 2 * margin"
    and "height p = rows * Max (height ` set images) + (rows - 1) * spacing + 2 * margin"
proof -
  from make_poster_InrD(3) [OF assms] obtain c where
    p: "p = Canvas (cols * Max (width ` set images) + (cols - 1) * spacing + 2 * margin)
                 (rows * Max (height ` set images) + (rows - 1) * spacing + 2 * margin) c
            (map (\<lambda>(idx, im). (im, paste_offset cols margin spacing
                      (Max (width ` set images)) (Max (height ` set images)) (int idx) im))
               (List.enumerate 0 images))"
    by blast
  show "pastes p = map (\<lambda>(idx, im). (im, paste_offset cols margin spacing
                      (Max (width ` set images)) (Max (height ` set images)) (int idx) im))
               (List.enumerate 0 images)"
    by (subst p) simp
  show "width p = cols * Max (width ` set images) + (cols - 1) * spacing + 2 * margin"
    by (subst p) simp
  show "height p = rows * Max (height ` set images) + (rows - 1) * spacing + 2 * margin"
    by (subst p) simp
qed

text \<open>The three pages on a 2x2 grid with margin 10 and spacing 5.\<close>

lemma three_pages_poster:
  "make_poster white three_pages 2 2 10 5 ''#FFFFFF'' =
     Inr (Canvas 325 425 (255, 255, 255)
       [(Raster 100 200 0, 35, 10), (Raster 150 150 1, 165, 35), (Raster 100 180 2, 35, 225)])"
  by (simp add: three_pages_def white_def max_of_def image_new_def paste_offset_def
        enumerate_eq_zip upt_rec)






lemma Max_nonneg:
  assumes "images \<noteq> []" "\<forall>im\<in>set images. (0::int) \<le> f im"
  shows "0 \<le> Max (f ` set images)"
proof -
  obtain im where im: "im \<in> set images" using assms(1) by (cases images) auto
  have "0 \<le> f im" using assms(2) im by blast
  also have "\<dots> \<le> Max (f ` set images)" using im by simp
  finally show ?thesis .
qed

lemma cell_in_canvas:
  fixes k n cell w spacing margin :: int
  assumes "0 \<le> k" "k < n" "0 \<le> w" "w \<le> cell" "0 \<le> spacing" "0 \<le> margin"
  shows "0 \<le> margin + k * (cell + spacing) + (cell - w) div 2"
    and "margin + k * (cell + spacing) + (cell - w) div 2 + w
           \<le> n * cell + (n - 1) * spacing + 2 * margin"
proof -
  have c: "0 \<le> cell + spacing" using assms by linarith
  have k0: "0 \<le> k * (cell + spacing)" using assms(1) c by simp
  have d0: "0 \<le> (cell - w) div 2" and d1: "(cell - w) div 2 \<le> cell - w"
    using assms(4) by presburger+
  show "0 \<le> margin + k * (cell + spacing) + (cell - w) div 2"
    using k0 d0 assms(6) by linarith
  have "k * (cell + spacing) \<le> (n - 1) * (cell + spacing)"
    using assms(2) c by (intro mult_right_mono) auto
  also have "\<dots> = n * cell + (n - 1) * spacing - cell" by (simp add: algebra_simps)
  finally show "margin + k * (cell + spacing) + (cell - w) div 2 + w
           \<le> n * cell + (n - 1) * spacing + 2 * margin"
    using d1 assms(6) by linarith
qed

lemma row_in_grid:
  fixes i cols rows :: int
  assumes "0 \<le> i" "1 \<le> cols" "i < cols * rows"
  shows "0 \<le> i div cols" and "i div cols < rows"
proof -
  show "0 \<le> i div cols" using assms(1,2) by (simp add: pos_imp_zdiv_nonneg_iff)
  have "cols * (i div cols) + i mod cols = i" by simp
  moreover have "0 \<le> i mod cols" using assms(2) by simp
  ultimately have "cols * (i div cols) \<le> i" by linarith
  then have "cols * (i div cols) < cols * rows" using assms(3) by linarith
  then show "i div cols < rows" using assms(2) by simp
qed

text \<open>
  Claim C9: on the poster that \<open>make_poster\<close> returns for pages of sizes that are not
  negative, a margin and a spacing that are not negative, at least one column and a grid
  with room for every page (\<open>columns * rows >= number of pages\<close>), every page was pasted
  and every pasted page lies inside the canvas: \<open>offX >= 0\<close>, \<open>offY >= 0\<close>,
  \<open>offX + page.w <= totalW\<close> and \<open>offY + page.h <= totalH\<close>.
\<close>

theorem make_poster_in_bounds:
  assumes "make_poster getrgb images cols rows margin spacing bg = Inr p"
    and "\<forall>im\<in>set images. 0 \<le> width im \<and> 0 \<le> height im"
    and "0 \<le> margin" and "0 \<le> spacing"
    and "1 \<le> cols" and "int (length images) \<le> cols * rows"
  shows "length (pastes p) = length images
       \<and> (\<forall>(im, off_x, off_y) \<in> set (pastes p).
             0 \<le> off_x \<and> 0 \<le> off_y
           \<and> off_x + width im \<le> width p \<and> off_y + height im \<le> height p)"
proof -
  let ?cw = "Max (width ` set images)" and ?ch = "Max (height ` set images)"
  let ?tw = "cols * ?cw + (cols - 1) * spacing + 2 * margin"
  let ?th = "rows * ?ch + (rows - 1) * spacing + 2 * margin"
  let ?ps = "map (\<lambda>(idx, im). (im, paste_offset cols margin spacing ?cw ?ch (int idx) im))
               (List.enumerate 0 images)"
  note ps = make_poster_pastes [OF assms(1)]
  have len: "length (pastes p) = length images" by (simp add: ps(1))
  have inb: "0 \<le> x \<and> 0 \<le> y \<and> x + width im \<le> ?tw \<and> y + height im \<le> ?th"
    if "(im, x, y) \<in> set ?ps" for im x y
  proof -
    from that obtain idx where idx: "idx < length images"
      and e: "(im, x, y) = (images ! idx, paste_offset cols margin spacing ?cw ?ch (int idx) (images ! idx))"
      by (auto simp: in_set_conv_nth nth_enumerate_eq)
    have mem: "images ! idx \<in> set images" using idx by simp
    have w: "0 \<le> width im" "width im \<le> ?cw" using mem assms(2) e by auto
    have h: "0 \<le> height im" "height im \<le> ?ch" using mem assms(2) e by auto
    have col: "0 \<le> int idx mod cols" "int idx mod cols < cols" using assms(5) by auto
    have "int idx < cols * rows" using idx assms(6) by linarith
    then have row: "0 \<le> int idx div cols" "int idx div cols < rows"
      using assms(5) by (auto intro: row_in_grid)
    have x: "x = margin + (int idx mod cols) * (?cw + spacing) + (?cw - width im) div 2"
      and y: "y = margin + (int idx div cols) * (?ch + spacing) + (?ch - height im) div 2"
      using e by (simp_all add: paste_offset_def Let_def)
    show ?thesis
      unfolding x y
      using cell_in_canvas [OF col w assms(4,3)] cell_in_canvas [OF row h assms(4,3)]
      by simp
  qed
  have "\<forall>(im, off_x, off_y) \<in> set (pastes p).
             0 \<le> off_x \<and> 0 \<le> off_y
           \<and> off_x + width im \<le> width p \<and> off_y + height im \<le> height p"
    unfolding ps using inb by (auto simp del: set_map)
  then show ?thesis using len by blast
qed

text \<open>All three pastes of the 2x2 example lie inside its 325x425 canvas.\<close>

theorem make_poster_in_bounds_example:
  "\<exists>p. make_poster white three_pages 2 2 10 5 ''#FFFFFF'' = Inr p
     \<and> length (pastes p) = 3
     \<and> list_all (\<lambda>(im, off_x, off_y). 0 \<le> off_x \<and> 0 \<le> off_y
               \<and> off_x + width im \<le> width p \<and> off_y + height im \<le> height p) (pastes p)"
  unfolding three_pages_poster
  using make_poster_in_bounds [OF three_pages_poster]
  by (simp add: three_pages_def list_all_iff)

section \<open>Properties of resolve_formats\<close>

lemma remdups_drop_seen:
  assumes "f \<in> set B"
  shows "remdups (A @ f # B) = remdups (A @ B)"
proof -
  have "remdups (A @ f # B) = remdups (A @ remdups (f # B))" by (simp only: remdups_append2)
  also have "\<dots> = remdups (A @ remdups B)" using assms by simp
  also have "\<dots> = remdups (A @ B)" by (simp only: remdups_append2)
  finally show ?thesis .
qed

lemma fold_format_step:
  assumes "distinct out"
  shows "fold format_step fs (set out, out, warned) =
     (set (rev (remdups (rev (out @ filter (\<lambda>f. f \<in> {''PNG'', ''JPEG''}) fs)))),
      rev (remdups (rev (out @ filter (\<lambda>f. f \<in> {''PNG'', ''JPEG''}) fs))),
      warned @ filter (\<lambda>f. f \<notin> {''PNG'', ''JPEG''}) fs)"
  using assms
proof (induction fs arbitrary: out warned)
  case Nil
  then show ?case by (simp add: distinct_remdups_id)
next
  case (Cons f fs)
  show ?case
  proof (cases "f \<in> {''PNG'', ''JPEG''}")
    case False
    then have "format_step f (set out, out, warned) = (set out, out, warned @ [f])"
      by (simp add: format_step_def)
    then show ?thesis using False Cons.IH [OF Cons.prems, of "warned @ [f]"] by simp
  next
    case True
    show ?thesis
    proof (cases "f \<in> set out")
      case seen: True
      have "format_step f (set out, out, warned) = (set out, out, warned)"
        using True seen by (simp add: format_step_def)
      moreover have "remdups (rev (filter (\<lambda>f. f \<in> {''PNG'', ''JPEG''}) fs) @ f # rev out)
                   = remdups (rev (filter (\<lambda>f. f \<in> {''PNG'', ''JPEG''}) fs) @ rev out)"
        using seen by (intro remdups_drop_seen) simp
      ultimately show ?thesis using True Cons.IH [OF Cons.prems, of warned] by simp
    next
      case new: False
      have "format_step f (set out, out, warned) = (set (out @ [f]), out @ [f], warned)"
        using True new by (simp add: format_step_def)
      moreover have "distinct (out @ [f])" using Cons.prems new by simp
      ultimately show ?thesis using True Cons.IH [of "out @ [f]" warned] by simp
    qed
  qed
qed

text \<open>
  Claim C10: whatever the arguments are, \<open>resolve_formats\<close> returns a non-empty list
  without duplicates whose elements are \<open>PNG\<close> or \<open>JPEG\<close>. For a \<open>--formats\<close>
  argument it is the list of the recognised tokens (the pieces between commas, stripped
  and in upper case, \<open>JPG\<close> read as \<open>JPEG\<close>), each kept at its first occurrence, and
  \<open>[PNG]\<close> when no recognised token remains. Without \<open>--formats\<close> it is
  \<open>[PNG, JPEG]\<close> under \<open>--both\<close>, and else the legacy \<open>--format\<close>, \<open>JPG\<close> read
  as \<open>JPEG\<close>.
\<close>

theorem resolve_formats_result:
  "fst (resolve_formats a) \<noteq> []
   \<and> distinct (fst (resolve_formats a))
   \<and> set (fst (resolve_formats a)) \<subseteq> {''PNG'', ''JPEG''}
   \<and> (arg_formats a \<noteq> [] \<longrightarrow>
        fst (resolve_formats a) =
          (let tokens = [upper (strip f). f \<leftarrow> split_on CHR '','' (arg_formats a), strip f \<noteq> []];
               known = filter (\<lambda>f. f \<in> {''PNG'', ''JPEG''})
                         (map (\<lambda>f. if f = ''JPG'' then ''JPEG'' else f) tokens)
           in if known = [] then [''PNG''] else rev (remdups (rev known))))
   \<and> (arg_formats a = [] \<and> arg_both a \<longrightarrow> fst (resolve_formats a) = [''PNG'', ''JPEG''])
   \<and> (arg_formats a = [] \<and> \<not> arg_both a \<longrightarrow>
        fst (resolve_formats a) =
          (if upper (arg_format a) = ''JPG'' \<or> upper (arg_format a) = ''JPEG''
           then [''JPEG''] else [''PNG'']))"
proof -
  let ?fmts = "map (\<lambda>f. if f = ''JPG'' then ''JPEG'' else f) (format_tokens a)"
  let ?known = "filter (\<lambda>f. f \<in> {''PNG'', ''JPEG''}) ?fmts"
  have f: "fold format_step ?fmts ({}, [], []) =
      (set (rev (remdups (rev ?known))), rev (remdups (rev ?known)),
       filter (\<lambda>f. f \<notin> {''PNG'', ''JPEG''}) ?fmts)"
    using fold_format_step [of "[]" ?fmts "[]"] by simp
  have r: "fst (resolve_formats a) = (if ?known = [] then [''PNG''] else rev (remdups (rev ?known)))"
    unfolding resolve_formats_def Let_def f by simp
  have d: "distinct (fst (resolve_formats a))" unfolding r by simp
  have s: "set (fst (resolve_formats a)) \<subseteq> {''PNG'', ''JPEG''}" unfolding r by auto
  have n: "fst (resolve_formats a) \<noteq> []" unfolding r by simp
  have m1: "fst (resolve_formats a) =
          (let tokens = [upper (strip f). f \<leftarrow> split_on CHR '','' (arg_formats a), strip f \<noteq> []];
               known = filter (\<lambda>f. f \<in> {''PNG'', ''JPEG''})
                         (map (\<lambda>f. if f = ''JPG'' then ''JPEG'' else f) tokens)
           in if known = [] then [''PNG''] else rev (remdups (rev known)))"
    if "arg_formats a \<noteq> []"
    unfolding r using that by (simp add: format_tokens_def Let_def)
  have m2: "fst (resolve_formats a) = [''PNG'', ''JPEG'']"
    if "arg_formats a = [] \<and> arg_both a"
    unfolding r using that by (simp add: format_tokens_def)
  have m3: "fst (resolve_formats a) =
          (if upper (arg_format a) = ''JPG'' \<or> upper (arg_format a) = ''JPEG''
           then [''JPEG''] else [''PNG''])"
    if "arg_formats a = [] \<and> \<not> arg_both a"
    unfolding r using that by (simp add: format_tokens_def)
  show ?thesis using n d s m1 m2 m3 by blast
qed

text \<open>The argument \<open>jpg, png,JPEG,,gif, Png\<close> gives JPEG then PNG; \<open>--both\<close> gives
  PNG then JPEG; the legacy \<open>--format JPG\<close> gives JPEG.\<close>

theorem resolve_formats_example:
  "fst (resolve_formats (example_args\<lparr>arg_formats := ''jpg, png,JPEG,,gif, Png''\<rparr>))
     = [''JPEG'', ''PNG'']
   \<and> fst (resolve_formats (example_args\<lparr>arg_both := True\<rparr>)) = [''PNG'', ''JPEG'']
   \<and> fst (resolve_formats (example_args\<lparr>arg_format := ''JPG''\<rparr>)) = [''JPEG'']"
  using resolve_formats_result [of "example_args\<lparr>arg_formats := ''jpg, png,JPEG,,gif, Png''\<rparr>"]
    resolve_formats_result [of "example_args\<lparr>arg_both := True\<rparr>"]
    resolve_formats_result [of "example_args\<lparr>arg_format := ''JPG''\<rparr>"]
  by (simp add: example_args_def strip_def upper_def upper_char_def small_letters_def
        capital_letters_def is_space_def)

section \<open>Properties of compute_grid\<close>

lemma max_double_big: "2 ^ 53 \<le> max_double"
  unfolding max_double_def by simp

lemma ceiling_fl_between:
  assumes lo: "of_int k + 2 powi e \<le> x" and hi: "x \<le> of_int k + 1"
    and u: "ulp_exponent x \<le> e" and e: "e \<le> 0"
  shows "of_int k < fl x" and "fl x \<le> of_int k + 1"
proof -
  have "(2::real) ^ nat (- e) * 2 powi e = 2 powi (- e) * 2 powi e"
    using e by (simp add: power_int_def)
  also have "\<dots> = 1" by (simp add: power_int_add [symmetric])
  finally have one: "(2::real) ^ nat (- e) * 2 powi e = 1" .
  have "real_of_int (k * 2 ^ nat (- e) + 1) * 2 powi e
          = of_int k * (2 ^ nat (- e) * 2 powi e) + 2 powi e"
    by (simp add: algebra_simps)
  then have g: "real_of_int (k * 2 ^ nat (- e) + 1) * 2 powi e = of_int k + 2 powi e"
    by (simp only: one mult_1_right)
  have "real_of_int (k * 2 ^ nat (- e) + 1) * 2 powi e \<le> fl x"
    using u lo unfolding g [symmetric] by (rule fl_grid_ge)
  then have "of_int k + 2 powi e \<le> fl x" unfolding g .
  moreover have "(0::real) < 2 powi e" by simp
  ultimately show "of_int k < fl x" by linarith
  have u0: "ulp_exponent x \<le> 0" using u e by linarith
  have "fl x \<le> real_of_int (k + 1) * 2 powi 0"
    using u0 hi by (intro fl_grid_le) simp_all
  then show "fl x \<le> of_int k + 1" by simp
qed

lemma sqrt_gap:
  fixes k n :: int
  assumes "0 \<le> k" "k < 2 ^ 26" "k * k < n"
  shows "of_int k + 2 powi (- 27) \<le> sqrt (of_int n)"
proof -
  have k: "real_of_int k \<le> 2 ^ 26 - 1"
    using assms(2) by (simp flip: of_int_le_iff)
  have "real_of_int (k * k) + 1 \<le> of_int n"
    using assms(3) by (simp flip: of_int_le_iff del: of_int_mult)
  then have n: "real_of_int k * real_of_int k + 1 \<le> of_int n" by simp
  have "(of_int k + 2 powi (- 27))\<^sup>2
          = real_of_int k * real_of_int k + real_of_int k * (1 / 2 ^ 26) + 1 / 2 ^ 54"
    by (simp add: power2_eq_square algebra_simps power_int_minus_divide)
  also have "\<dots> \<le> real_of_int k * real_of_int k + (2 ^ 26 - 1) * (1 / 2 ^ 26) + 1 / 2 ^ 54"
    using k by simp
  also have "\<dots> \<le> real_of_int k * real_of_int k + 1" by simp
  also have "\<dots> \<le> of_int n" by (rule n)
  finally show ?thesis by (rule real_le_rsqrt)
qed

lemma ceiling_fl_sqrt:
  fixes n :: int
  assumes "1 \<le> n" "n \<le> 2 ^ 52"
  shows "\<lceil>fl (sqrt (of_int n))\<rceil> = \<lceil>sqrt (of_int n)\<rceil>"
proof -
  define s where "s = sqrt (real_of_int n)"
  define c where "c = \<lceil>s\<rceil>"
  have s1: "1 \<le> s" using assms(1) by (simp add: s_def)
  have "real_of_int n \<le> (2 ^ 26)\<^sup>2" using assms(2) by (simp flip: of_int_le_iff)
  then have s26: "s \<le> 2 ^ 26" unfolding s_def by (intro real_le_lsqrt) auto
  have c_hi: "s \<le> of_int c" and c_lo: "of_int c - 1 < s" unfolding c_def by linarith+
  have c26: "c \<le> 2 ^ 26" using s26 by (simp add: c_def ceiling_le_iff)
  have c1: "1 \<le> c" using s1 by (simp add: c_def le_ceiling_iff)
  have "\<lceil>fl s\<rceil> = c"
  proof (cases "s = of_int c")
    case True
    have "\<bar>c\<bar> < 2 ^ 53" using c26 c1 by simp
    then have "fl (of_int c) = of_int c" by (rule fl_of_int)
    then show ?thesis using True by simp
  next
    case False
    define k where "k = c - 1"
    have lt: "of_int k < s" "s < of_int k + 1" using c_lo c_hi False by (simp_all add: k_def)
    have k0: "0 \<le> k" using c1 by (simp add: k_def)
    have k26: "k < 2 ^ 26" using c26 by (simp add: k_def)
    have "real_of_int k * real_of_int k < s * s"
      using lt(1) k0 by (intro mult_strict_mono') simp_all
    also have "s * s = of_int n" using assms(1) by (simp add: s_def)
    finally have "real_of_int (k * k) < of_int n" by simp
    then have "k * k < n" by (simp only: of_int_less_iff)
    then have gap: "of_int k + 2 powi (- 27) \<le> s"
      unfolding s_def using k0 k26 by (intro sqrt_gap)
    have "real_of_int k + 1 \<le> 2 ^ 26" using k26 by (simp flip: of_int_le_iff)
    then have "s < 2 ^ 26" using lt(2) by linarith
    then have "\<bar>s\<bar> < 2 powi (25 + 1)" using s1 by simp
    then have u: "ulp_exponent s \<le> 25 - 52" using s1 by (intro ulp_exponent_le) auto
    have "of_int k < fl s" "fl s \<le> of_int k + 1"
      using ceiling_fl_between [OF gap _ _ _] lt(2) u by simp_all
    then have "\<lceil>fl s\<rceil> = k + 1" by (intro ceiling_unique) simp_all
    then show ?thesis by (simp add: k_def)
  qed
  then show ?thesis by (simp add: c_def s_def)
qed

lemma ceiling_fl_quotient:
  fixes n c :: int
  assumes "1 \<le> n" "1 \<le> c" "c \<le> 2 ^ 26" "n \<le> c * 2 ^ 26"
  shows "\<lceil>fl (of_int n / of_int c)\<rceil> = \<lceil>real_of_int n / of_int c\<rceil>"
    and "\<bar>fl (of_int n / of_int c)\<bar> \<le> 2 ^ 53"
proof -
  define q where "q = real_of_int n / of_int c"
  define m where "m = \<lceil>q\<rceil>"
  have cpos: "0 < real_of_int c" using assms(2) by simp
  have qpos: "0 < q" using assms(1) cpos by (simp add: q_def)
  have "real_of_int n \<le> of_int (c * 2 ^ 26)" using assms(4) by (simp only: of_int_le_iff)
  then have q26: "q \<le> 2 ^ 26" using cpos by (simp add: q_def pos_divide_le_eq mult.commute)
  have m_hi: "q \<le> of_int m" and m_lo: "of_int m - 1 < q" unfolding m_def by linarith+
  have m26: "m \<le> 2 ^ 26" using q26 by (simp add: m_def ceiling_le_iff)
  have m1: "1 \<le> m" using qpos by (simp add: m_def le_ceiling_iff)
  have "\<lceil>fl q\<rceil> = m \<and> \<bar>fl q\<bar> \<le> 2 ^ 53"
  proof (cases "q = of_int m")
    case True
    have "\<bar>m\<bar> < 2 ^ 53" using m26 m1 by simp
    then have "fl (of_int m) = of_int m" by (rule fl_of_int)
    moreover have "\<bar>real_of_int m\<bar> \<le> 2 ^ 53"
      using m26 m1 by (simp flip: of_int_le_iff)
    ultimately show ?thesis using True by simp
  next
    case False
    define k where "k = m - 1"
    have lt: "of_int k < q" "q < of_int k + 1" using m_lo m_hi False by (simp_all add: k_def)
    have k0: "0 \<le> k" using m1 by (simp add: k_def)
    have "real_of_int (k * c) < of_int n"
      using lt(1) cpos by (simp add: q_def pos_less_divide_eq)
    then have "k * c < n" by (simp only: of_int_less_iff)
    then have "k * c + 1 \<le> n" by simp
    then have "real_of_int (k * c + 1) \<le> of_int n" by (simp only: of_int_le_iff)
    then have "real_of_int (k * c + 1) / of_int c \<le> of_int n / of_int c"
      using cpos by (intro divide_right_mono) simp_all
    moreover have "real_of_int (k * c + 1) / of_int c = of_int k + 1 / of_int c"
      using cpos by (simp add: field_simps)
    ultimately have "real_of_int k + 1 / of_int c \<le> q"
      by (simp only: q_def)
    moreover have "2 powi (- 26) \<le> 1 / real_of_int c"
    proof -
      have "real_of_int c \<le> 2 ^ 26" using assms(3) by (simp flip: of_int_le_iff)
      then have "1 / 2 ^ 26 \<le> 1 / real_of_int c"
        using cpos by (intro divide_left_mono) simp_all
      then show ?thesis by (simp add: power_int_minus_divide)
    qed
    ultimately have gap: "of_int k + 2 powi (- 26) \<le> q" by linarith
    have "\<bar>q\<bar> < 2 powi (26 + 1)" using qpos q26 by simp
    then have u: "ulp_exponent q \<le> 26 - 52" using qpos by (intro ulp_exponent_le) auto
    have b: "of_int k < fl q" "fl q \<le> of_int k + 1"
      using ceiling_fl_between [OF gap _ _ _] lt(2) u by simp_all
    then have "\<lceil>fl q\<rceil> = k + 1" by (intro ceiling_unique) simp_all
    moreover have "real_of_int k + 1 \<le> 2 ^ 53"
      using m26 by (simp add: k_def flip: of_int_le_iff) 
    then have "\<bar>fl q\<bar> \<le> 2 ^ 53" using b k0 by (simp add: abs_le_iff)
    ultimately show ?thesis by (simp add: k_def)
  qed
  then show "\<lceil>fl (of_int n / of_int c)\<rceil> = \<lceil>real_of_int n / of_int c\<rceil>"
    and "\<bar>fl (of_int n / of_int c)\<bar> \<le> 2 ^ 53"
    by (simp_all add: q_def m_def)
qed

lemma lower_auto: "lower ''auto'' = ''auto''"
  by (simp add: lower_def lower_char_def small_letters_def capital_letters_def)

lemma ceiling_sqrt_least:
  fixes n :: int
  assumes "1 \<le> n"
  shows "n \<le> \<lceil>sqrt (of_int n)\<rceil> * \<lceil>sqrt (of_int n)\<rceil>"
    and "0 \<le> d \<Longrightarrow> n \<le> d * d \<Longrightarrow> \<lceil>sqrt (of_int n)\<rceil> \<le> d"
proof -
  define s where "s = sqrt (real_of_int n)"
  have s1: "1 \<le> s" using assms by (simp add: s_def)
  have ss: "s * s = of_int n" using assms by (simp add: s_def)
  have "s \<le> of_int \<lceil>s\<rceil>" by linarith
  then have "s * s \<le> of_int \<lceil>s\<rceil> * of_int \<lceil>s\<rceil>"
    using s1 by (intro mult_mono) simp_all
  then have "real_of_int n \<le> of_int (\<lceil>s\<rceil> * \<lceil>s\<rceil>)" by (simp add: ss)
  then show "n \<le> \<lceil>sqrt (of_int n)\<rceil> * \<lceil>sqrt (of_int n)\<rceil>"
    unfolding s_def by (simp only: of_int_le_iff)
  show "\<lceil>sqrt (of_int n)\<rceil> \<le> d" if "0 \<le> d" "n \<le> d * d"
  proof -
    have "real_of_int n \<le> of_int (d * d)" using that(2) by (simp only: of_int_le_iff)
    then have "real_of_int n \<le> (of_int d)\<^sup>2" by (simp add: power2_eq_square)
    then have "sqrt (of_int n) \<le> of_int d" using that(1) by (intro real_le_lsqrt) simp_all
    then show ?thesis by (simp add: ceiling_le_iff)
  qed
qed

text \<open>
  Claim C2, within the precision of floats: for every page count \<open>n\<close> from 1 to
  \<open>2^52\<close>, \<open>compute_grid(n, "auto")\<close> returns \<open>(c, r)\<close> where \<open>c\<close> is the
  ceiling of the square root of \<open>n\<close>, the smallest integer whose square is at least
  \<open>n\<close>, \<open>r\<close> is the ceiling of \<open>n / c\<close>, and the grid has room for every page.
\<close>

theorem compute_grid_auto:
  assumes "1 \<le> n" and "n \<le> 2 ^ 52"
  shows "\<exists>c r. compute_grid n ''auto'' = Inr (c, r)
           \<and> c = \<lceil>sqrt (of_int n)\<rceil>
           \<and> n \<le> c * c \<and> (\<forall>d. 0 \<le> d \<and> n \<le> d * d \<longrightarrow> c \<le> d)
           \<and> r = \<lceil>real_of_int n / of_int c\<rceil>
           \<and> n \<le> c * r"
proof -
  define c where "c = \<lceil>sqrt (real_of_int n)\<rceil>"
  define r where "r = \<lceil>real_of_int n / of_int c\<rceil>"
  have n53: "\<bar>n\<bar> < 2 ^ 53" using assms by simp
  have "real_of_int n \<le> 2 ^ 53" using assms(2) by (simp flip: of_int_le_iff) 
  then have "\<bar>real_of_int n\<bar> \<le> max_double" using assms(1) max_double_big by simp
  then have fi: "float_of_int n = Inr (of_int n)"
    using fl_of_int [OF n53] by (simp add: float_of_int_def to_double_def)
  have sq: "math_sqrt n = Inr (fl (sqrt (of_int n)))"
    using assms(1) by (simp add: math_sqrt_def fi)
  have cs: "\<lceil>fl (sqrt (of_int n))\<rceil> = c"
    unfolding c_def using assms by (rule ceiling_fl_sqrt)
  have nc: "n \<le> c * c" unfolding c_def using assms(1) by (rule ceiling_sqrt_least(1))
  have least: "c \<le> d" if "0 \<le> d \<and> n \<le> d * d" for d
    unfolding c_def using assms(1) that by (intro ceiling_sqrt_least(2)) simp_all
  have c1: "1 \<le> c" using assms(1) by (simp add: c_def le_ceiling_iff)
  have "c \<le> 2 ^ 26"
    using least [of "2 ^ 26"] assms(2) by simp
  then have c26: "c \<le> 2 ^ 26" .
  have "c * c \<le> c * 2 ^ 26" using c26 c1 by (intro mult_left_mono) simp_all
  then have n26: "n \<le> c * 2 ^ 26" using nc by linarith
  note q = ceiling_fl_quotient [OF assms(1) c1 c26 n26]
  have "\<bar>fl (of_int n / of_int c)\<bar> \<le> max_double" using q(2) max_double_big by linarith
  then have td: "true_div n c = Inr (fl (of_int n / of_int c))"
    using c1 by (simp add: true_div_def to_double_def)
  have cg: "compute_grid n ''auto'' = Inr (c, r)"
    by (simp add: compute_grid_def lower_auto sq cs td q(1) r_def)
  have "real_of_int n / of_int c \<le> of_int r" unfolding r_def by linarith
  then have "real_of_int n \<le> of_int (c * r)"
    using c1 by (simp add: pos_divide_le_eq mult.commute)
  then have cover: "n \<le> c * r" by (simp only: of_int_le_iff)
  show ?thesis
    using cg nc least cover unfolding r_def c_def by blast
qed

text \<open>Seven pages go on a grid of three columns and three rows.\<close>

theorem compute_grid_auto_example: "compute_grid 7 ''auto'' = Inr (3, 3)"
proof -
  from compute_grid_auto [of 7] obtain c r where
    cg: "compute_grid 7 ''auto'' = Inr (c, r)"
    and c: "c = \<lceil>sqrt (of_int 7)\<rceil>" and sq: "7 \<le> c * c"
    and least: "\<forall>d. 0 \<le> d \<and> 7 \<le> d * d \<longrightarrow> c \<le> d"
    and r: "r = \<lceil>real_of_int 7 / of_int c\<rceil>"
    by auto
  have "c \<le> 3" using least by simp
  moreover have "1 \<le> c" unfolding c by (simp add: le_ceiling_iff)
  moreover have "c \<noteq> 1" "c \<noteq> 2" using sq by auto
  ultimately have c3: "c = 3" by linarith
  have "r = 3" unfolding r c3 by simp
  then show ?thesis using cg c3 by simp
qed

text \<open>
  Beyond \<open>2^52\<close> the claim fails. The float nearest to the square root of
  \<open>2^52 + 1\<close> is \<open>2^26\<close>, so \<open>compute_grid\<close> returns \<open>2^26\<close> columns, whose square
  is less than the page count.
\<close>

lemma fl_sqrt_above_square: "fl (sqrt (2 ^ 52 + 1)) = 2 ^ 26"
proof -
  define s :: real where "s = sqrt (2 ^ 52 + 1)"
  have "(2 ^ 26 :: real)\<^sup>2 \<le> 2 ^ 52 + 1" by simp
  then have lo: "2 ^ 26 \<le> s" unfolding s_def by (rule real_le_rsqrt)
  have "(2 ^ 52 + 1 :: real) < (2 ^ 26 + 1 / 2 ^ 27)\<^sup>2"
    by (simp add: power2_eq_square algebra_simps)
  then have hi: "s < 2 ^ 26 + 1 / 2 ^ 27" unfolding s_def by (intro real_less_lsqrt) simp_all
  have "2 powi 26 \<le> \<bar>s\<bar>" "\<bar>s\<bar> < 2 powi (26 + 1)" using lo hi by simp_all
  then have "ulp_exponent s = 26 - 52" by (intro ulp_exponent_eq) simp_all
  then have u: "ulp_exponent s = - 26" by simp
  have "s / 2 powi (- 26) = s * 2 ^ 26" by (simp add: power_int_minus_divide)
  moreover have "real_of_int (2 ^ 52) \<le> s * 2 ^ 26" using lo by simp
  moreover have "s * 2 ^ 26 < real_of_int (2 ^ 52) + 1 / 2" using hi by simp
  ultimately have "round_half_even (s / 2 powi (- 26)) = 2 ^ 52"
    by (simp only: round_half_even_down)
  then have "fl s = 2 ^ 52 * 2 powi (- 26)" by (simp add: fl_def u)
  then show ?thesis by (simp add: s_def power_int_minus_divide)
qed

theorem compute_grid_auto_counterexample:
  "compute_grid (2 ^ 52 + 1) ''auto'' = Inr (2 ^ 26, 2 ^ 26 + 1)
   \<and> \<not> ((2 ^ 52 + 1 :: int) \<le> 2 ^ 26 * 2 ^ 26)"
proof -
  have "fl (of_int (2 ^ 52 + 1)) = of_int (2 ^ 52 + 1)" by (rule fl_of_int) simp
  then have fi: "float_of_int (2 ^ 52 + 1) = Inr (2 ^ 52 + 1)"
    by (simp add: float_of_int_def to_double_def max_double_def)
  have sq: "math_sqrt (2 ^ 52 + 1) = Inr (2 ^ 26)"
    using fl_sqrt_above_square fi by (simp add: math_sqrt_def)
  have "fl (of_int (2 ^ 52 + 1) * 2 powi (- 26)) = of_int (2 ^ 52 + 1) * 2 powi (- 26)"
    by (rule fl_exact) simp_all
  then have "fl ((2 ^ 52 + 1) / 2 ^ 26) = (2 ^ 52 + 1) / 2 ^ 26"
    by (simp add: power_int_minus_divide)
  then have td: "true_div (2 ^ 52 + 1) (2 ^ 26) = Inr ((2 ^ 52 + 1) / 2 ^ 26)"
    by (simp add: true_div_def to_double_def max_double_def)
  have "compute_grid (2 ^ 52 + 1) ''auto'' = Inr (2 ^ 26, 2 ^ 26 + 1)"
    using td sq by (simp add: compute_grid_def lower_auto)
  then show ?thesis by simp
qed

section \<open>Properties of downscale_if_needed\<close>

lemma fl_rel_error:
  assumes "2 powi (- 1022) \<le> \<bar>x\<bar>"
  shows "\<bar>fl x - x\<bar> \<le> \<bar>x\<bar> * 2 powi (- 53)"
proof -
  define e where "e = \<lfloor>log 2 \<bar>x\<bar>\<rfloor>"
  define u :: real where "u = 2 powi (e - 52)"
  have "(0::real) < 2 powi (- 1022)" by simp
  then have xpos: "0 < \<bar>x\<bar>" using assms by linarith
  have e_lo: "- 1022 \<le> e" unfolding e_def using assms by (rule floor_log2_ge)
  have ue: "ulp_exponent x = e - 52" using e_lo by (simp add: ulp_exponent_def e_def)
  have upos: "0 < u" by (simp add: u_def)
  have "fl x - x = (of_int (round_half_even (x / u)) - x / u) * u"
    using upos by (simp add: fl_def ue u_def field_simps)
  then have "\<bar>fl x - x\<bar> = \<bar>of_int (round_half_even (x / u)) - x / u\<bar> * u"
    using upos by (simp add: abs_mult)
  also have "\<dots> \<le> 1 / 2 * u"
    using upos round_half_even_error [of "x / u"] by (intro mult_right_mono) simp_all
  also have "\<dots> = 2 powi e * 2 powi (- 53)"
    by (simp add: u_def power_int_diff power_int_minus_divide)
  also have "\<dots> \<le> \<bar>x\<bar> * 2 powi (- 53)"
    using powi_floor_log2_le [OF xpos] by (intro mult_right_mono) (simp_all add: e_def)
  finally show ?thesis .
qed

lemma fl_nonneg: "0 \<le> x \<Longrightarrow> 0 \<le> fl x"
  using fl_grid_ge [of x "ulp_exponent x" 0] by simp

lemma product_error:
  fixes h mw w :: int
  assumes mw: "0 < mw" "mw < w" and h: "1 \<le> h" and small: "h * w < 2 ^ 51"
  shows "\<bar>fl (of_int h * fl (of_int mw / of_int w)) - of_int (h * mw) / of_int w\<bar> < 1 / of_int w"
proof -
  define d :: real where "d = 2 powi (- 53)"
  define x where "x = real_of_int mw / of_int w"
  define t where "t = real_of_int (h * mw) / of_int w"
  define r where "r = fl x"
  define z where "z = of_int h * r"
  have d: "0 < d" "d \<le> 1 / 2" "d * 2 ^ 53 = 1" by (simp_all add: d_def power_int_minus_divide)
  have wpos: "0 < real_of_int w" and hpos: "1 \<le> real_of_int h" and mpos: "1 \<le> real_of_int mw"
    using mw h by simp_all
  have "0 \<le> (h - 1) * w" using h mw by simp
  then have "w \<le> h * w" by (simp add: left_diff_distrib)
  then have "w < 2 ^ 51" using small by linarith
  then have w51: "real_of_int w \<le> 2 ^ 51" by (simp flip: of_int_le_iff) 
  have "h * mw \<le> h * w" using h mw by (intro mult_left_mono) simp_all
  then have "h * mw < 2 ^ 51" using small by linarith
  then have "real_of_int (h * mw) < of_int (2 ^ 51)" by (simp only: of_int_less_iff)
  then have N51: "real_of_int (h * mw) < 2 ^ 51" by simp
  have winv: "1 / 2 ^ 51 \<le> 1 / real_of_int w"
    using w51 wpos by (intro divide_left_mono) simp_all
  have t_eq: "t = of_int h * x" by (simp add: t_def x_def)
  have "1 / real_of_int w \<le> x" unfolding x_def using mpos wpos by (intro divide_right_mono) simp_all
  then have x_lo: "1 / 2 ^ 51 \<le> x" using winv by linarith
  moreover have "(0::real) < 1 / 2 ^ 51" by simp
  ultimately have xpos: "0 < x" by linarith
  have "2 powi (- 1022) \<le> (1 / 2 ^ 51 :: real)" by (simp add: power_int_minus_divide)
  then have "2 powi (- 1022) \<le> \<bar>x\<bar>" using x_lo by linarith
  then have "\<bar>r - x\<bar> \<le> \<bar>x\<bar> * d" unfolding r_def d_def by (rule fl_rel_error)
  then have rx: "\<bar>r - x\<bar> \<le> x * d" using xpos by simp
  have "\<bar>z - t\<bar> = of_int h * \<bar>r - x\<bar>"
    using hpos by (simp add: z_def t_eq abs_mult flip: right_diff_distrib)
  also have "\<dots> \<le> of_int h * (x * d)" using rx hpos by (intro mult_left_mono) simp_all
  finally have zt: "\<bar>z - t\<bar> \<le> t * d" by (simp add: t_eq mult.assoc)
  have tpos: "0 < t" using hpos xpos by (simp add: t_eq)
  have "x \<le> t" using hpos xpos by (simp add: t_eq)
  then have t_lo: "1 / 2 ^ 51 \<le> t" using x_lo by linarith
  have "t * d \<le> t * (1 / 2)" using d(2) tpos by (intro mult_left_mono) simp_all
  then have z_lo: "t / 2 \<le> z" using zt by (simp add: abs_le_iff)
  then have zpos: "0 < z" using tpos by linarith
  have "2 powi (- 1022) \<le> (1 / 2 ^ 51 / 2 :: real)" by (simp add: power_int_minus_divide)
  also have "\<dots> \<le> t / 2" using t_lo by simp
  finally have "2 powi (- 1022) \<le> \<bar>z\<bar>" using z_lo by linarith
  then have "\<bar>fl z - z\<bar> \<le> \<bar>z\<bar> * d" unfolding d_def by (rule fl_rel_error)
  then have yz: "\<bar>fl z - z\<bar> \<le> z * d" using zpos by simp
  have "z \<le> t + t * d" using zt by (simp add: abs_le_iff)
  also have "\<dots> \<le> t + t * 1" using d tpos by (intro add_left_mono mult_left_mono) simp_all
  finally have "z * d \<le> (2 * t) * d" using d(1) by (intro mult_right_mono) simp_all
  then have "\<bar>fl z - z\<bar> \<le> 2 * t * d" using yz by linarith
  then have "\<bar>fl z - t\<bar> \<le> 3 * t * d" using zt by (simp add: abs_le_iff)
  also have "\<dots> = 3 * real_of_int (h * mw) * d / of_int w" by (simp add: t_def)
  also have "\<dots> < 1 / of_int w"
  proof -
    have "3 * real_of_int (h * mw) * d < 3 * 2 ^ 51 * d"
      using N51 d(1) by (intro mult_strict_right_mono mult_strict_left_mono) simp_all
    also have "\<dots> = 3 / 4 * (d * 2 ^ 53)" by simp
    also have "\<dots> < 1" by (simp only: d(3))
    finally show ?thesis using wpos by (intro divide_strict_right_mono) simp_all
  qed
  finally show ?thesis by (simp add: z_def r_def x_def t_def)
qed

lemma floor_near_quotient:
  fixes N w :: int and y :: real
  assumes "2 \<le> w" and "\<bar>y - of_int N / of_int w\<bar> < 1 / of_int w"
  shows "\<lfloor>y\<rfloor> = (if w dvd N \<and> y < of_int (N div w) then N div w - 1 else N div w)"
proof -
  define q where "q = N div w"
  define m where "m = N mod w"
  have wpos: "0 < real_of_int w" and w2: "2 \<le> real_of_int w" using assms(1) by simp_all
  have N: "N = q * w + m" by (simp add: q_def m_def)
  have m: "0 \<le> m" "m < w" using assms(1) by (simp_all add: m_def)
  have t: "real_of_int N / of_int w = of_int q + of_int m / of_int w"
    using wpos by (simp add: N field_simps)
  have lo: "of_int q + of_int m / of_int w - 1 / of_int w < y"
    and hi: "y < of_int q + of_int m / of_int w + 1 / of_int w"
    using assms(2) unfolding t by (simp_all add: abs_less_iff)
  have inv: "1 / real_of_int w \<le> 1 / 2" using w2 by (simp add: field_simps)
  have "\<lfloor>y\<rfloor> = (if w dvd N \<and> y < of_int q then q - 1 else q)"
  proof (cases "m = 0")
    case True
    then have dv: "w dvd N" by (simp add: m_def dvd_eq_mod_eq_0)
    have b: "of_int q - 1 < y" "y < of_int q + 1" using lo hi inv True by simp_all
    show ?thesis
    proof (cases "y < of_int q")
      case True
      then have "\<lfloor>y\<rfloor> = q - 1" using b by (intro floor_unique) simp_all
      then show ?thesis using dv True by simp
    next
      case False
      then have "\<lfloor>y\<rfloor> = q" using b by (intro floor_unique) simp_all
      then show ?thesis using False by simp
    qed
  next
    case False
    then have nd: "\<not> w dvd N" by (simp add: m_def dvd_eq_mod_eq_0)
    have "1 \<le> m" "m \<le> w - 1" using m False by simp_all
    then have "1 \<le> real_of_int m" "real_of_int m \<le> of_int w - 1"
      by (simp_all flip: of_int_le_iff)
    then have "1 / of_int w \<le> real_of_int m / of_int w"
      and "real_of_int m / of_int w \<le> (of_int w - 1) / of_int w"
      using wpos by (simp_all add: divide_right_mono)
    moreover have "(real_of_int w - 1) / of_int w = 1 - 1 / of_int w"
      using wpos by (simp add: field_simps)
    ultimately have "of_int q < y" "y < of_int q + 1" using lo hi by linarith+
    then have "\<lfloor>y\<rfloor> = q" by (intro floor_unique) simp_all
    then show ?thesis using nd by simp
  qed
  then show ?thesis by (simp add: q_def)
qed

text \<open>
  Claim C7: when \<open>max_width\<close> is zero or negative, or the image is not wider than
  \<open>max_width\<close>, \<open>downscale_if_needed\<close> returns the very image it was given.
\<close>

theorem downscale_identity:
  "max_width \<le> 0 \<or> width img \<le> max_width \<Longrightarrow> downscale_if_needed img max_width = Inr img"
  by (simp add: downscale_if_needed_def)

text \<open>A 325x425 image is returned as it is for \<open>max_width = 0\<close> and for
  \<open>max_width = 325\<close>.\<close>

theorem downscale_identity_example:
  "downscale_if_needed (Raster 325 425 0) 0 = Inr (Raster 325 425 0)
   \<and> downscale_if_needed (Raster 325 425 0) 325 = Inr (Raster 325 425 0)"
  using downscale_identity [of 0 "Raster 325 425 0"] downscale_identity [of 325 "Raster 325 425 0"]
  by simp

text \<open>
  Claim C3, as the code has it: for \<open>0 < max_width < img.width\<close> (and an image of fewer
  than \<open>2^51\<close> pixels) \<open>downscale_if_needed\<close> returns a resampled image of width
  \<open>max_width\<close> and height \<open>max(1, new_h)\<close>, where \<open>new_h\<close> is the float product
  \<open>img.height * (max_width / img.width)\<close> truncated, not rounded to nearest. This
  \<open>new_h\<close> is the floor of the exact quotient \<open>h * max_width / w\<close>, and one less
  exactly when \<open>w\<close> divides \<open>h * max_width\<close> and the float product falls below the
  exact quotient.
\<close>

theorem downscale_size:
  assumes "0 < max_width" and "max_width < width img"
    and "0 \<le> height img" and "height img * width img < 2 ^ 51"
  shows "let product = fl (of_int (height img) * fl (of_int max_width / of_int (width img)));
             exact = height img * max_width div width img
         in downscale_if_needed img max_width = Inr (Resized max_width (max 1 \<lfloor>product\<rfloor>) img)
          \<and> \<lfloor>product\<rfloor> =
              (if width img dvd height img * max_width \<and> product < of_int exact
               then exact - 1 else exact)"
proof -
  define w where "w = width img"
  define h where "h = height img"
  define ratio where "ratio = fl (real_of_int max_width / of_int w)"
  define y where "y = fl (of_int h * ratio)"
  have wpos: "0 < real_of_int w" using assms(1,2) by (simp add: w_def)
  define x where "x = real_of_int max_width / of_int w"
  have x0: "0 < x" using assms(1) wpos by (simp add: x_def)
  have "real_of_int max_width < of_int w" using assms(2) by (simp add: w_def)
  then have x1: "x < 1" using wpos by (simp add: x_def pos_divide_less_eq)
  have "\<bar>x\<bar> < 2 powi (0 + 1)" using x0 x1 by simp
  then have "ulp_exponent x \<le> 0 - 52" using x0 by (intro ulp_exponent_le) simp_all
  then have "ulp_exponent x \<le> 0" by simp
  moreover have "x \<le> real_of_int 1 * 2 powi 0" using x1 by simp
  ultimately have "fl x \<le> real_of_int 1 * 2 powi 0" by (rule fl_grid_le)
  then have r1: "ratio \<le> 1" by (simp add: ratio_def x_def)
  have r0: "0 \<le> ratio" unfolding ratio_def using assms(1) wpos by (intro fl_nonneg) simp
  have td: "true_div max_width w = Inr ratio"
    using assms(1,2) r0 r1 max_double_big
    by (simp add: true_div_def to_double_def ratio_def w_def)
  have cond: "\<not> (max_width \<le> 0 \<or> w \<le> max_width)" using assms(1,2) by (simp add: w_def)
  have w2: "2 \<le> w" using assms(1,2) by (simp add: w_def)
  have run: "downscale_if_needed img max_width = Inr (Resized max_width (max 1 \<lfloor>y\<rfloor>) img)"
    and quot: "\<lfloor>y\<rfloor> = (if w dvd h * max_width \<and> y < of_int (h * max_width div w)
                     then h * max_width div w - 1 else h * max_width div w)"
  proof -
    have "downscale_if_needed img max_width = Inr (Resized max_width (max 1 \<lfloor>y\<rfloor>) img)
        \<and> \<lfloor>y\<rfloor> = (if w dvd h * max_width \<and> y < of_int (h * max_width div w)
                     then h * max_width div w - 1 else h * max_width div w)"
    proof (cases "h = 0")
      case True
      have y: "y = 0" by (simp add: y_def True fl_zero)
      have "float_of_int 0 = Inr 0"
        by (simp add: float_of_int_def to_double_def fl_zero max_double_def)
      moreover have "float_mul 0 ratio = Finite 0"
        by (simp add: float_mul_def fl_zero max_double_def)
      ultimately have "downscale_if_needed img max_width = Inr (Resized max_width (max 1 0) img)"
        using cond td True unfolding downscale_if_needed_def w_def [symmetric] h_def [symmetric]
        by simp
      then show ?thesis by (simp add: y True)
    next
      case False
      then have h1: "1 \<le> h" using assms(3) by (simp add: h_def)
      have small: "h * w < 2 ^ 51" using assms(4) by (simp add: h_def w_def)
      have err: "\<bar>y - of_int (h * max_width) / of_int w\<bar> < 1 / of_int w"
        unfolding y_def ratio_def using assms(1) _ h1 small
        by (rule product_error) (use assms(2) in \<open>simp add: w_def\<close>)
      have y0: "0 \<le> y" unfolding y_def using r0 h1 by (intro fl_nonneg) simp
      note q = floor_near_quotient [OF w2 err]
      have "0 \<le> h * (w - 1)" using h1 w2 by simp
      then have "h \<le> h * w" by (simp add: right_diff_distrib)
      then have h51: "h < 2 ^ 51" using small by linarith
      then have "\<bar>h\<bar> < 2 ^ 53" using h1 by simp
      then have "fl (of_int h) = of_int h" by (rule fl_of_int)
      moreover have "real_of_int h \<le> 2 ^ 53" using h51 by (simp flip: of_int_le_iff)
      ultimately have fh: "float_of_int h = Inr (of_int h)"
        using h1 max_double_big by (simp add: float_of_int_def to_double_def)
      have "real_of_int (h * max_width) / of_int w \<le> of_int h"
        using assms(1,2) h1 wpos by (simp add: w_def pos_divide_le_eq mult_left_mono)
      moreover have "1 / real_of_int w \<le> 1" using w2 by simp
      ultimately have "y < of_int h + 1" using err by (simp add: abs_less_iff)
      then have "y \<le> max_double" using h51 max_double_big
        by (simp flip: of_int_less_iff)
      then have fm: "float_mul (of_int h) ratio = Finite y"
        using y0 by (simp add: float_mul_def y_def Let_def)
      have "downscale_if_needed img max_width = Inr (Resized max_width (max 1 \<lfloor>y\<rfloor>) img)"
        using cond td fh fm y0
        unfolding downscale_if_needed_def w_def [symmetric] h_def [symmetric]
        by simp
      then show ?thesis using q by simp
    qed
    then show "downscale_if_needed img max_width = Inr (Resized max_width (max 1 \<lfloor>y\<rfloor>) img)"
      and "\<lfloor>y\<rfloor> = (if w dvd h * max_width \<and> y < of_int (h * max_width div w)
                     then h * max_width div w - 1 else h * max_width div w)"
      by blast+
  qed
  show ?thesis
    using run quot unfolding Let_def y_def ratio_def h_def w_def by blast
qed

text \<open>A 1000x1414 image limited to 300 pixels of width becomes 300x424
  (\<open>1414 * 0.3 = 424.2\<close>), and a 1000x1000 image limited to 500 becomes 500x500: there
  the float product is the exact quotient.\<close>

theorem downscale_size_example:
  "downscale_if_needed (Raster 1000 1414 0) 300 = Inr (Resized 300 424 (Raster 1000 1414 0))
   \<and> downscale_if_needed (Raster 1000 1000 0) 500 = Inr (Resized 500 500 (Raster 1000 1000 0))"
proof -
  have a: "downscale_if_needed (Raster 1000 1414 0) 300 = Inr (Resized 300 424 (Raster 1000 1414 0))"
    using downscale_size [of 300 "Raster 1000 1414 0"] by (simp add: Let_def)
  have "fl (of_int 1 * 2 powi (- 1)) = of_int 1 * 2 powi (- 1)" by (rule fl_exact) simp_all
  then have half: "fl (1 / 2) = 1 / 2" by (simp add: power_int_minus_divide)
  have "fl (of_int 500) = of_int 500" by (rule fl_of_int) simp
  then have prod: "fl 500 = 500" by simp
  have b: "downscale_if_needed (Raster 1000 1000 0) 500 = Inr (Resized 500 500 (Raster 1000 1000 0))"
    using downscale_size [of 500 "Raster 1000 1000 0"] by (simp add: Let_def half prod)
  show ?thesis using a b by simp
qed

text \<open>
  The truncated float product can fall below the exact quotient: for a 98x98 image
  limited to a width of 2, \<open>2 / 98\<close> is rounded down, \<open>98 * (2 / 98)\<close> comes out as
  the float just below 2, and the new height is 1.
\<close>

lemma fl_ratio_2_98: "fl (2 / 98) = 5882252574524729 / 2 ^ 58"
proof -
  have "fl (2 / 98) = of_int 5882252574524729 * 2 powi (- 6 - 52)"
    by (rule fl_down) (simp_all add: power_int_minus_divide)
  then show ?thesis by (simp add: power_int_minus_divide)
qed

lemma fl_product_98: "fl (98 * (5882252574524729 / 2 ^ 58)) = 9007199254740991 / 2 ^ 52"
proof -
  have "fl (98 * (5882252574524729 / 2 ^ 58)) = of_int 9007199254740991 * 2 powi (0 - 52)"
    by (rule fl_down) (simp_all add: power_int_minus_divide)
  then show ?thesis by (simp add: power_int_minus_divide)
qed

lemma downscale_below_quotient:
  "downscale_if_needed (Raster 98 98 0) 2 = Inr (Resized 2 1 (Raster 98 98 0))"
proof -
  have td: "true_div 2 98 = Inr (5882252574524729 / 2 ^ 58)"
    using fl_ratio_2_98 by (simp add: true_div_def to_double_def max_double_def)
  have "fl (of_int 98) = of_int 98" by (rule fl_of_int) simp
  then have fh: "float_of_int 98 = Inr 98"
    by (simp add: float_of_int_def to_double_def max_double_def)
  have fm: "float_mul 98 (5882252574524729 / 2 ^ 58) = Finite (9007199254740991 / 2 ^ 52)"
    using fl_product_98 by (simp add: float_mul_def max_double_def)
  show ?thesis
    using td fh fm by (simp add: downscale_if_needed_def)
qed

text \<open>
  Rounding to nearest is not what the code does: a 4x5 image limited to a width of 3
  has \<open>5 * 0.75 = 3.75\<close>, all exact in floats, and comes out 3 pixels high, where
  rounding would give 4.
\<close>

theorem downscale_round_counterexample:
  "downscale_if_needed (Raster 4 5 0) 3 = Inr (Resized 3 3 (Raster 4 5 0))
   \<and> max 1 (round (real_of_int 5 * real_of_int 3 / real_of_int 4)) = (4::int)"
proof -
  have "fl (of_int 3 * 2 powi (- 2)) = of_int 3 * 2 powi (- 2)" by (rule fl_exact) simp_all
  then have ratio: "fl (3 / 4) = 3 / 4" by (simp add: power_int_minus_divide)
  have td: "true_div 3 4 = Inr (3 / 4)"
    by (simp add: true_div_def to_double_def ratio max_double_def)
  have "fl (of_int 5) = of_int 5" by (rule fl_of_int) simp
  then have fh: "float_of_int 5 = Inr 5"
    by (simp add: float_of_int_def to_double_def max_double_def)
  have "fl (of_int 15 * 2 powi (- 2)) = of_int 15 * 2 powi (- 2)" by (rule fl_exact) simp_all
  then have "fl (15 / 4) = 15 / 4" by (simp add: power_int_minus_divide)
  then have fm: "float_mul 5 (3 / 4) = Finite (15 / 4)"
    by (simp add: float_mul_def max_double_def)
  have "downscale_if_needed (Raster 4 5 0) 3 = Inr (Resized 3 3 (Raster 4 5 0))"
    by (simp add: downscale_if_needed_def td fh fm)
  moreover have "max 1 (round (real_of_int 5 * real_of_int 3 / real_of_int 4)) = (4::int)"
    by (simp add: round_def)
  ultimately show ?thesis by simp
qed

section \<open>Properties of main\<close>

lemma save_formats_Inr:
  assumes "save_formats w poster pdf out_dir suffix quality fmts acc = (evs, Inr outs)"
  shows "evs = map (\<lambda>fmt. Save (out_path_of out_dir pdf suffix fmt) (upper fmt)) fmts
       \<and> outs = acc @ map (out_path_of out_dir pdf suffix) fmts"
  using assms
proof (induction fmts arbitrary: acc evs)
  case Nil
  then show ?case by simp
next
  case (Cons fmt fmts)
  from Cons.prems obtain evs' where
    rec: "save_formats w poster pdf out_dir suffix quality fmts
            (acc @ [out_path_of out_dir pdf suffix fmt]) = (evs', Inr outs)"
    and evs: "evs = Save (out_path_of out_dir pdf suffix fmt) (upper fmt) # evs'"
    by (auto simp: Let_def split: option.splits prod.splits)
  from Cons.IH [OF rec] show ?case using evs by simp
qed

lemma process_pdf_Inr:
  assumes "process_pdf w pdf out_dir dpi cols_spec margin spacing bg fmts suffix max_width quality
             = (evs, Inr outs)"
  shows "evs = Render pdf # map (\<lambda>fmt. Save (out_path_of out_dir pdf suffix fmt) (upper fmt)) fmts"
    and "outs = map (out_path_of out_dir pdf suffix) fmts"
proof -
  from assms obtain poster evs' where
    s: "save_formats w poster pdf out_dir suffix quality fmts [] = (evs', Inr outs)"
    and e: "evs = Render pdf # evs'"
    unfolding process_pdf_def
    by (auto split: sum.splits prod.splits)
  show "evs = Render pdf # map (\<lambda>fmt. Save (out_path_of out_dir pdf suffix fmt) (upper fmt)) fmts"
    using save_formats_Inr [OF s] e by simp
  show "outs = map (out_path_of out_dir pdf suffix) fmts"
    using save_formats_Inr [OF s] by simp
qed

lemma process_all_concat:
  "process_all w a fmts out_dir pdfs = concat (map (process_one w a fmts out_dir) pdfs)"
  by (induction pdfs) simp_all

lemma main_log:
  assumes "env_mkdir w (env_expanduser w (arg_output a)) = None"
    and "find_pdfs w (env_expanduser w (arg_input a)) \<noteq> []"
  shows "main w a =
     (map PrintWarning (snd (resolve_formats a))
        @ [PrintFound (length (find_pdfs w (env_expanduser w (arg_input a))))
             (env_expanduser w (arg_output a)) (fst (resolve_formats a))]
        @ concat (map (process_one w a (fst (resolve_formats a)) (env_expanduser w (arg_output a)))
                    (find_pdfs w (env_expanduser w (arg_input a)))),
      Returned)"
  using assms by (simp add: main_def Let_def process_all_concat split: prod.splits)

lemma save_formats_events:
  "\<exists>k\<le>length fmts.
     fst (save_formats w poster pdf out_dir suffix quality fmts acc) =
       map (\<lambda>fmt. Save (out_path_of out_dir pdf suffix fmt) (upper fmt)) (take k fmts)"
proof (induction fmts arbitrary: acc)
  case Nil
  show ?case by simp
next
  case (Cons fmt fmts)
  show ?case
  proof (cases "save_image w poster (out_path_of out_dir pdf suffix fmt) (upper fmt) quality")
    case (Some e)
    then have "fst (save_formats w poster pdf out_dir suffix quality (fmt # fmts) acc) =
        map (\<lambda>fmt. Save (out_path_of out_dir pdf suffix fmt) (upper fmt)) (take 0 (fmt # fmts))"
      by (simp add: Let_def)
    then show ?thesis by blast
  next
    case None
    from Cons.IH [of "acc @ [out_path_of out_dir pdf suffix fmt]"] obtain k where
      k: "k \<le> length fmts"
      and e: "fst (save_formats w poster pdf out_dir suffix quality fmts
                     (acc @ [out_path_of out_dir pdf suffix fmt])) =
              map (\<lambda>fmt. Save (out_path_of out_dir pdf suffix fmt) (upper fmt)) (take k fmts)"
      by blast
    obtain evs res where s: "save_formats w poster pdf out_dir suffix quality fmts
        (acc @ [out_path_of out_dir pdf suffix fmt]) = (evs, res)"
      by (cases "save_formats w poster pdf out_dir suffix quality fmts
        (acc @ [out_path_of out_dir pdf suffix fmt])")
    have "fst (save_formats w poster pdf out_dir suffix quality (fmt # fmts) acc) =
        map (\<lambda>fmt. Save (out_path_of out_dir pdf suffix fmt) (upper fmt)) (take (Suc k) (fmt # fmts))"
      using None e s by (simp add: Let_def)
    moreover have "Suc k \<le> length (fmt # fmts)" using k by simp
    ultimately show ?thesis by blast
  qed
qed

lemma process_pdf_events:
  "\<exists>k\<le>length fmts.
     fst (process_pdf w pdf out_dir dpi cols_spec margin spacing bg fmts suffix max_width quality) =
       Render pdf # map (\<lambda>fmt. Save (out_path_of out_dir pdf suffix fmt) (upper fmt)) (take k fmts)"
proof -
  have none: "\<exists>k\<le>length fmts. [Render pdf] =
       Render pdf # map (\<lambda>fmt. Save (out_path_of out_dir pdf suffix fmt) (upper fmt)) (take k fmts)"
    by (intro exI [of _ 0]) simp
  have saves: "\<exists>k\<le>length fmts.
       evs = map (\<lambda>fmt. Save (out_path_of out_dir pdf suffix fmt) (upper fmt)) (take k fmts)"
    if "save_formats w poster pdf out_dir suffix quality fmts [] = (evs, res)"
    for poster evs res
    using save_formats_events [of fmts w poster pdf out_dir suffix quality "[]"] that by simp
  show ?thesis
    unfolding process_pdf_def using none
    by (auto split: sum.splits prod.splits intro: saves)
qed

text \<open>
  Claim C5, as the code has it: when the output directory can be created and at least one
  document is found, the run processes the documents in order and returns normally, with
  exit status 0, whatever happened to the documents. The part of the log that belongs to a
  document starts with its rendering. If \<open>process_pdf\<close> succeeded, one file was written
  for every requested format, in order, and the \<open>OK\<close> line was printed; if it raised,
  the files of the formats saved so far were written, the error was reported with the
  path of the document, and the run went on to the next document.
\<close>

theorem main_isolates_failures:
  assumes "env_mkdir w (env_expanduser w (arg_output a)) = None"
    and "find_pdfs w (env_expanduser w (arg_input a)) \<noteq> []"
  shows "let fmts = fst (resolve_formats a);
             out_dir = env_expanduser w (arg_output a);
             pdfs = find_pdfs w (env_expanduser w (arg_input a));
             saved = (\<lambda>pdf fmt. Save (out_path_of out_dir pdf (arg_suffix a) fmt) (upper fmt))
         in main w a =
              (map PrintWarning (snd (resolve_formats a))
                 @ [PrintFound (length pdfs) out_dir fmts]
                 @ concat (map (\<lambda>pdf.
                      case call_process_pdf w a fmts out_dir pdf of
                        (evs, Inr outs) \<Rightarrow>
                          Render pdf # map (saved pdf) fmts
                            @ [PrintOK (path_name pdf)
                                 (map (\<lambda>fmt. path_name (out_path_of out_dir pdf (arg_suffix a) fmt)) fmts)]
                      | (evs, Inl e) \<Rightarrow> evs @ [PrintError pdf e]) pdfs),
               Returned)
          \<and> exit_code (snd (main w a)) = 0
          \<and> (\<forall>pdf. \<exists>k\<le>length fmts.
                 fst (call_process_pdf w a fmts out_dir pdf) = Render pdf # map (saved pdf) (take k fmts))"
proof -
  define fmts where "fmts = fst (resolve_formats a)"
  define out_dir where "out_dir = env_expanduser w (arg_output a)"
  define pdfs where "pdfs = find_pdfs w (env_expanduser w (arg_input a))"
  define saved where
    "saved = (\<lambda>pdf fmt. Save (out_path_of out_dir pdf (arg_suffix a) fmt) (upper fmt))"
  note log = main_log [OF assms, folded fmts_def out_dir_def pdfs_def]
  have one: "process_one w a fmts out_dir pdf =
      (case call_process_pdf w a fmts out_dir pdf of
         (evs, Inr outs) \<Rightarrow>
           Render pdf # map (saved pdf) fmts
             @ [PrintOK (path_name pdf)
                  (map (\<lambda>fmt. path_name (out_path_of out_dir pdf (arg_suffix a) fmt)) fmts)]
       | (evs, Inl e) \<Rightarrow> evs @ [PrintError pdf e])" for pdf
  proof -
    obtain evs res where c: "call_process_pdf w a fmts out_dir pdf = (evs, res)"
      by (cases "call_process_pdf w a fmts out_dir pdf")
    show ?thesis
    proof (cases res)
      case (Inl e)
      then show ?thesis by (simp add: process_one_def c)
    next
      case (Inr outs)
      note r = c [unfolded call_process_pdf_def Inr]
      have "evs = Render pdf # map (saved pdf) fmts"
        using process_pdf_Inr(1) [OF r] by (simp add: saved_def)
      moreover have "outs = map (out_path_of out_dir pdf (arg_suffix a)) fmts"
        using process_pdf_Inr(2) [OF r] .
      ultimately show ?thesis by (simp add: process_one_def c Inr comp_def)
    qed
  qed
  then have "process_one w a fmts out_dir =
      (\<lambda>pdf. case call_process_pdf w a fmts out_dir pdf of
         (evs, Inr outs) \<Rightarrow>
           Render pdf # map (saved pdf) fmts
             @ [PrintOK (path_name pdf)
                  (map (\<lambda>fmt. path_name (out_path_of out_dir pdf (arg_suffix a) fmt)) fmts)]
       | (evs, Inl e) \<Rightarrow> evs @ [PrintError pdf e])"
    by (intro ext)
  then have m: "main w a =
              (map PrintWarning (snd (resolve_formats a))
                 @ [PrintFound (length pdfs) out_dir fmts]
                 @ concat (map (\<lambda>pdf.
                      case call_process_pdf w a fmts out_dir pdf of
                        (evs, Inr outs) \<Rightarrow>
                          Render pdf # map (saved pdf) fmts
                            @ [PrintOK (path_name pdf)
                                 (map (\<lambda>fmt. path_name (out_path_of out_dir pdf (arg_suffix a) fmt)) fmts)]
                      | (evs, Inl e) \<Rightarrow> evs @ [PrintError pdf e]) pdfs),
               Returned)"
    unfolding log by simp
  have x: "exit_code (snd (main w a)) = 0" unfolding log by simp
  have k: "\<exists>k\<le>length fmts.
      fst (call_process_pdf w a fmts out_dir pdf) = Render pdf # map (saved pdf) (take k fmts)"
    for pdf
    unfolding call_process_pdf_def saved_def by (rule process_pdf_events)
  show ?thesis
    unfolding Let_def
    using m x k
    unfolding fmts_def out_dir_def pdfs_def saved_def by blast
qed

text \<open>
  Claim C4, as the code has it: when the columns specification is not \<open>1\<close>, not
  \<open>auto\<close> in any letter case and not an integer literal, nothing is composed or
  written. If the output directory cannot be created, the exception escapes; if no
  document is found, the run exits with status 1. Otherwise every document found is handed
  to the renderer, then fails (with the renderer's error, or with the \<open>ValueError\<close> of
  \<open>int()\<close> raised by \<open>compute_grid\<close>), the error is reported for that document, the
  run goes on to the next and returns normally.
\<close>

theorem main_invalid_cols:
  assumes "arg_cols a \<noteq> ''1''" and "lower (arg_cols a) \<noteq> ''auto''"
    and "py_int (arg_cols a) = None"
  shows "main w a =
     (let warnings = map PrintWarning (snd (resolve_formats a));
          out_dir = env_expanduser w (arg_output a);
          pdfs = find_pdfs w (env_expanduser w (arg_input a))
      in case env_mkdir w out_dir of
           Some e \<Rightarrow> (warnings, Uncaught e)
         | None \<Rightarrow>
             if pdfs = [] then (warnings @ [PrintNoPdfs], SysExit 1)
             else (warnings
                     @ [PrintFound (length pdfs) out_dir (fst (resolve_formats a))]
                     @ concat (map (\<lambda>pdf. [Render pdf,
                          PrintError pdf
                            (case render_pdf_pages w pdf (arg_dpi a) of
                               Inl e \<Rightarrow> e
                             | Inr pages \<Rightarrow> ValueError ''invalid literal for int() with base 10'')])
                         pdfs),
                   Returned))
   \<and> (\<forall>path fmt. Save path fmt \<notin> set (fst (main w a)))"
proof -
  have cg: "compute_grid n (arg_cols a) = Inl (ValueError ''invalid literal for int() with base 10'')"
    for n
    using assms(1-3) by (simp add: compute_grid_def)
  have "process_one w a fmts out_dir pdf =
      [Render pdf, PrintError pdf
                       (case render_pdf_pages w pdf (arg_dpi a) of
                          Inl e \<Rightarrow> e
                        | Inr pages \<Rightarrow> ValueError ''invalid literal for int() with base 10'')]"
    for fmts out_dir pdf
    by (simp add: process_one_def call_process_pdf_def process_pdf_def cg split: sum.splits)
  then have po: "process_one w a fmts out_dir =
      (\<lambda>pdf. [Render pdf, PrintError pdf
                       (case render_pdf_pages w pdf (arg_dpi a) of
                          Inl e \<Rightarrow> e
                        | Inr pages \<Rightarrow> ValueError ''invalid literal for int() with base 10'')])"
    for fmts out_dir
    by (intro ext)
  have m: "main w a =
     (let warnings = map PrintWarning (snd (resolve_formats a));
          out_dir = env_expanduser w (arg_output a);
          pdfs = find_pdfs w (env_expanduser w (arg_input a))
      in case env_mkdir w out_dir of
           Some e \<Rightarrow> (warnings, Uncaught e)
         | None \<Rightarrow>
             if pdfs = [] then (warnings @ [PrintNoPdfs], SysExit 1)
             else (warnings
                     @ [PrintFound (length pdfs) out_dir (fst (resolve_formats a))]
                     @ concat (map (\<lambda>pdf. [Render pdf,
                          PrintError pdf
                            (case render_pdf_pages w pdf (arg_dpi a) of
                               Inl e \<Rightarrow> e
                             | Inr pages \<Rightarrow> ValueError ''invalid literal for int() with base 10'')])
                         pdfs),
                   Returned))"
    by (simp add: main_def Let_def process_all_concat po split: prod.splits option.splits)
  have "Save path fmt \<notin> set (fst (main w a))" for path fmt
    unfolding m by (auto simp: Let_def split: option.splits)
  then show ?thesis using m by blast
qed

subsection \<open>A run on the two documents\<close>

lemma example_formats: "resolve_formats (example_args\<lparr>arg_cols := c\<rparr>) = ([''PNG''], [])"
  by (simp add: resolve_formats_def format_tokens_def example_args_def upper_def upper_char_def small_letters_def capital_letters_def
        format_step_def)

lemma example_pdfs:
  "find_pdfs example_env (env_expanduser example_env ''in'') = [''in/a.pdf'', ''in/b.pdf'']"
  by (simp add: find_pdfs_def example_env_def)

lemma example_render:
  "render_pdf_pages example_env pdf 300 =
     (if pdf = ''in/a.pdf'' then Inr [Raster 100 200 0]
      else Inl (OtherError ''cannot open broken document''))"
proof -
  have "fl (of_int 300) = of_int 300" by (rule fl_of_int) simp
  then have "float_of_int 300 = Inr 300"
    by (simp add: float_of_int_def to_double_def max_double_def)
  then show ?thesis
    by (simp add: render_pdf_pages_def dpi_to_zoom_def example_env_def)
qed

lemma compute_grid_one_page: "compute_grid 1 ''auto'' = Inr (1, 1)"
proof -
  have one: "fl (of_int 1) = of_int 1" by (rule fl_of_int) simp
  then have "float_of_int 1 = Inr 1"
    by (simp add: float_of_int_def to_double_def max_double_def)
  then have "math_sqrt 1 = Inr 1" using one by (simp add: math_sqrt_def)
  moreover have "true_div 1 1 = Inr 1"
    using one by (simp add: true_div_def to_double_def max_double_def)
  ultimately show ?thesis by (simp add: compute_grid_def lower_auto)
qed

lemma example_document_a:
  "call_process_pdf example_env example_args [''PNG''] ''out'' ''in/a.pdf'' =
     ([Render ''in/a.pdf'', Save ''out/a_poster.png'' ''PNG''], Inr [''out/a_poster.png''])"
proof -
  have mp: "make_poster white [Raster 100 200 0] 1 1 16 8 ''#FFFFFF'' =
      Inr (Canvas 132 232 (255, 255, 255) [(Raster 100 200 0, 16, 16)])"
    by (simp add: white_def max_of_def image_new_def paste_offset_def)
  have up: "upper ''PNG'' = ''PNG''" by (simp add: upper_def upper_char_def small_letters_def capital_letters_def)
  have op: "out_path_of ''out'' ''in/a.pdf'' ''_poster'' ''PNG'' = ''out/a_poster.png''"
    by (simp add: out_path_of_def up path_stem_def path_name_def path_join_def)
  have args: "arg_dpi example_args = 300" "arg_cols example_args = ''auto''"
    "arg_margin example_args = 16" "arg_spacing example_args = 8"
    "arg_bg example_args = ''#FFFFFF''" "arg_suffix example_args = ''_poster''"
    "arg_max_width example_args = 0" "arg_quality example_args = 95"
    by (simp_all add: example_args_def)
  have env: "env_getrgb example_env = white" "env_save example_env = (\<lambda>img p fmt q. None)"
    by (simp_all add: example_env_def)
  show ?thesis
    unfolding call_process_pdf_def process_pdf_def args example_render
    by (simp add: compute_grid_one_page env mp downscale_if_needed_def op up save_image_def
          Let_def del: make_poster.simps)
qed

lemma example_document_b:
  "call_process_pdf example_env (example_args\<lparr>arg_cols := c\<rparr>) fmts out_dir ''in/b.pdf'' =
     ([Render ''in/b.pdf''], Inl (OtherError ''cannot open broken document''))"
proof -
  have "arg_dpi (example_args\<lparr>arg_cols := c\<rparr>) = 300" by (simp add: example_args_def)
  then show ?thesis
    unfolding call_process_pdf_def process_pdf_def by (simp add: example_render)
qed

lemma example_env_simps:
  "env_expanduser example_env = (\<lambda>p. p)" "env_mkdir example_env = (\<lambda>p. None)"
  by (simp_all add: example_env_def)

lemma example_args_simps:
  "arg_input (example_args\<lparr>arg_cols := c\<rparr>) = ''in''"
  "arg_output (example_args\<lparr>arg_cols := c\<rparr>) = ''out''"
  "arg_dpi (example_args\<lparr>arg_cols := c\<rparr>) = 300"
  "arg_suffix (example_args\<lparr>arg_cols := c\<rparr>) = ''_poster''"
  "arg_cols (example_args\<lparr>arg_cols := c\<rparr>) = c"
  "example_args\<lparr>arg_cols := ''auto''\<rparr> = example_args"
  by (simp_all add: example_args_def)

text \<open>
  With the default arguments the first document is written, the failure of the second is
  reported, and the exit status is 0: no indicator that a document failed.
\<close>

theorem main_exit_status_counterexample:
  "main example_env example_args =
     ([PrintFound 2 ''out'' [''PNG''],
       Render ''in/a.pdf'', Save ''out/a_poster.png'' ''PNG'', PrintOK ''a.pdf'' [''a_poster.png''],
       Render ''in/b.pdf'', PrintError ''in/b.pdf'' (OtherError ''cannot open broken document'')],
      Returned)
   \<and> exit_code (snd (main example_env example_args)) = 0"
proof -
  note f = example_formats [of "''auto''", unfolded example_args_simps]
  note b = example_document_b [of "''auto''" "[''PNG'']" "''out''", unfolded example_args_simps]
  note io = example_args_simps(1,2) [of "''auto''", unfolded example_args_simps]
  note pdfs = example_pdfs [unfolded example_env_simps]
  have m: "main example_env example_args =
     ([PrintFound 2 ''out'' [''PNG''],
       Render ''in/a.pdf'', Save ''out/a_poster.png'' ''PNG'', PrintOK ''a.pdf'' [''a_poster.png''],
       Render ''in/b.pdf'', PrintError ''in/b.pdf'' (OtherError ''cannot open broken document'')],
      Returned)"
    unfolding main_def f io example_env_simps
    by (simp add: pdfs process_one_def example_document_a b path_name_def)
  show ?thesis unfolding m by simp
qed

text \<open>The same run, from the theorem.\<close>

theorem main_isolates_failures_example:
  "snd (main example_env example_args) = Returned
   \<and> exit_code (snd (main example_env example_args)) = 0
   \<and> Save ''out/a_poster.png'' ''PNG'' \<in> set (fst (main example_env example_args))
   \<and> PrintOK ''a.pdf'' [''a_poster.png''] \<in> set (fst (main example_env example_args))
   \<and> PrintError ''in/b.pdf'' (OtherError ''cannot open broken document'')
        \<in> set (fst (main example_env example_args))"
proof -
  note f = example_formats [of "''auto''", unfolded example_args_simps]
  note b = example_document_b [of "''auto''" "[''PNG'']" "''out''", unfolded example_args_simps]
  note io = example_args_simps(1,2,4) [of "''auto''", unfolded example_args_simps]
  note pdfs = example_pdfs [unfolded example_env_simps]
  have up: "upper ''PNG'' = ''PNG''" by (simp add: upper_def upper_char_def small_letters_def capital_letters_def)
  have op: "out_path_of ''out'' ''in/a.pdf'' ''_poster'' ''PNG'' = ''out/a_poster.png''"
    by (simp add: out_path_of_def up path_stem_def path_name_def path_join_def)
  show ?thesis
    using main_isolates_failures [of example_env example_args]
    unfolding f io example_env_simps pdfs Let_def
    by (simp add: example_document_a b op up path_name_def)
qed

text \<open>\<open>int\<close> skips a no-break space and accepts single underscores between digits;
  it refuses a word, and a separator that only \<open>strip\<close> removes.\<close>

lemma py_int_examples:
  "py_int [CHR 0xA0, CHR ''2''] = Some 2"
  "py_int '' -1_0 '' = Some (- 10)"
  "py_int ''two'' = None"
  "py_int [CHR 0x1C, CHR ''2''] = None"
  by (simp_all add: py_int_def is_int_space_def parse_unsigned_def digit_val_def)

lemma strip_examples:
  "strip [CHR 0xA0, CHR ''p'', CHR ''n'', CHR ''g'', CHR 0x85, CHR 0x1C] = ''png''"
  by (simp add: strip_def is_space_def)

lemma compute_grid_words:
  "compute_grid n ''abc'' = Inl (ValueError ''invalid literal for int() with base 10'')"
  "compute_grid n ''two'' = Inl (ValueError ''invalid literal for int() with base 10'')"
  by (simp_all add: compute_grid_def lower_def lower_char_def small_letters_def capital_letters_def py_int_def is_int_space_def
        parse_unsigned_def digit_val_def)

text \<open>
  With \<open>--cols abc\<close> the first document is rendered before the error is raised, the
  run goes on to the second document, and it returns normally.
\<close>

theorem main_invalid_cols_counterexample:
  "main example_env (example_args\<lparr>arg_cols := ''abc''\<rparr>) =
     ([PrintFound 2 ''out'' [''PNG''],
       Render ''in/a.pdf'',
       PrintError ''in/a.pdf'' (ValueError ''invalid literal for int() with base 10''),
       Render ''in/b.pdf'',
       PrintError ''in/b.pdf'' (OtherError ''cannot open broken document'')],
      Returned)"
proof -
  note pdfs = example_pdfs [unfolded example_env_simps]
  have a: "call_process_pdf example_env (example_args\<lparr>arg_cols := ''abc''\<rparr>) [''PNG''] ''out'' ''in/a.pdf''
      = ([Render ''in/a.pdf''], Inl (ValueError ''invalid literal for int() with base 10''))"
    unfolding call_process_pdf_def process_pdf_def example_args_simps example_render
    by (simp add: compute_grid_words)
  show ?thesis
    unfolding main_def example_formats example_args_simps example_env_simps
    by (simp add: pdfs process_one_def a example_document_b)
qed

text \<open>The run with \<open>--cols two\<close>, from the theorem.\<close>

theorem main_invalid_cols_example:
  "main example_env (example_args\<lparr>arg_cols := ''two''\<rparr>) =
     ([PrintFound 2 ''out'' [''PNG''],
       Render ''in/a.pdf'',
       PrintError ''in/a.pdf'' (ValueError ''invalid literal for int() with base 10''),
       Render ''in/b.pdf'',
       PrintError ''in/b.pdf'' (OtherError ''cannot open broken document'')],
      Returned)"
proof -
  note pdfs = example_pdfs [unfolded example_env_simps]
  have c: "lower ''two'' \<noteq> ''auto''" "py_int ''two'' = None"
    by (simp_all add: lower_def lower_char_def small_letters_def capital_letters_def py_int_def is_int_space_def
        parse_unsigned_def digit_val_def)
  show ?thesis
    using main_invalid_cols [of "example_args\<lparr>arg_cols := ''two''\<rparr>" example_env]
    unfolding example_formats example_args_simps example_env_simps pdfs
    by (simp add: c example_render)
qed

end
